theory Spec2Isabelle
  imports Main "HOL-Library.Word"
begin

section \<open>Errors\<close>

text \<open>
  Every \<^verbatim>\<open>TORCH_CHECK\<close> of \<^verbatim>\<open>Linear.cpp\<close> and every failure of a dense-array
  primitive is a value of this type; a fallible function returns \<open>error + 'a\<close> with
  \<open>Inl\<close> for the failure, and the first failure ends the call, as the C++ exception does.
\<close>

datatype error =
    EinsumNoOperands
  | EinsumOperandCount nat nat
  | EinsumSubscriptRange char
  | EinsumSubscriptCount nat nat nat
  | EinsumOutputRepeated char
  | EinsumOutputUnknown char
  | EinsumDiagonalSizes char nat nat nat
  | SumproductRank
  | SumproductNonBroadcast
  | TrilinearUnrollDim
  | BilinearInputDims
  | BilinearBatchDims nat
  | BilinearInput1Size
  | BilinearInput2Size
  | BilinearBiasSize
  | TensordotListLength
  | TensordotContractedDims
  | DimOutOfRange
  | DimRepeated
  | DiagonalSameDim
  | PermuteDims
  | BroadcastMismatch
  | ShapeInvalid
  | MatmulShape
  | NarrowRange
  | VectorOutOfBounds

definition bindE :: "error + 'a \<Rightarrow> ('a \<Rightarrow> error + 'b) \<Rightarrow> error + 'b" where
  "bindE m f = (case m of Inl e \<Rightarrow> Inl e | Inr v \<Rightarrow> f v)"

fun mapE :: "('a \<Rightarrow> error + 'b) \<Rightarrow> 'a list \<Rightarrow> error + 'b list" where
  "mapE f [] = Inr []"
| "mapE f (x # xs) = bindE (f x) (\<lambda>y. bindE (mapE f xs) (\<lambda>ys. Inr (y # ys)))"

section \<open>Dense arrays\<close>

text \<open>
  A tensor is its extents and its elements in row-major order. Strides and storage
  sharing are not modelled: every operation returns a fresh dense value. The element
  type is any commutative semiring, which covers the integer dtypes (a \<open>64 word\<close>
  wraps as \<^verbatim>\<open>int64_t\<close> does) and is the exact-arithmetic reading of the
  floating-point dtypes.
\<close>

datatype 'a tensor = Tensor (sizes: "nat list") (data: "'a list")

definition rank :: "'a tensor \<Rightarrow> nat" where
  "rank t = length (sizes t)"

definition numel :: "'a tensor \<Rightarrow> nat" where
  "numel t = prod_list (sizes t)"

definition wf :: "'a tensor \<Rightarrow> bool" where
  "wf t = (length (data t) = prod_list (sizes t))"

fun all_indices :: "nat list \<Rightarrow> nat list list" where
  "all_indices [] = [[]]"
| "all_indices (n # ns) = concat (map (\<lambda>i. map ((#) i) (all_indices ns)) [0..<n])"

fun ravel :: "nat list \<Rightarrow> nat list \<Rightarrow> nat" where
  "ravel (n # ns) (i # is) = i * prod_list ns + ravel ns is"
| "ravel _ _ = 0"

definition valid_index :: "nat list \<Rightarrow> nat list \<Rightarrow> bool" where
  "valid_index ns idx = list_all2 (<) idx ns"

definition elem :: "'a tensor \<Rightarrow> nat list \<Rightarrow> 'a" where
  "elem t idx = data t ! ravel (sizes t) idx"

definition tabulate :: "nat list \<Rightarrow> (nat list \<Rightarrow> 'a) \<Rightarrow> 'a tensor" where
  "tabulate ns f = Tensor ns (map f (all_indices ns))"

definition index_of :: "nat list \<Rightarrow> nat \<Rightarrow> nat" where
  "index_of xs x = length (takeWhile (\<lambda>y. y \<noteq> x) xs)"

definition remove_nth :: "nat \<Rightarrow> 'b list \<Rightarrow> 'b list" where
  "remove_nth k xs = take k xs @ drop (Suc k) xs"

definition insert_nth :: "nat \<Rightarrow> 'b \<Rightarrow> 'b list \<Rightarrow> 'b list" where
  "insert_nth k x xs = take k xs @ x # drop k xs"

subsection \<open>Axis arguments\<close>

text \<open>
  Modelled from the spec: \<^verbatim>\<open>c10::maybe_wrap_dim\<close> (not under src/), the "shape
  query" collaborator's reading of an axis argument: an axis of a rank-\<open>n\<close> array is
  one of \<open>-n .. n-1\<close>, a negative one counting from the end; anything else is an error.
  A rank-0 array is read as rank 1 when \<open>wrap_scalar\<close> holds.
\<close>

definition maybe_wrap_dim :: "int \<Rightarrow> nat \<Rightarrow> bool \<Rightarrow> error + nat" where
  "maybe_wrap_dim d n wrap_scalar =
     (let m = (if n = 0 \<and> wrap_scalar then 1 else n) in
      if - int m \<le> d \<and> d < int m then Inr (nat (if d < 0 then d + int m else d))
      else Inl DimOutOfRange)"

text \<open>
  Modelled from the spec: \<^verbatim>\<open>at::dim_list_to_bitset\<close> (not under src/), the "set of
  axis indices": one bit per axis of a rank-\<open>n\<close> array; an axis out of range or listed
  twice is an error. The fixed capacity of ATen's bitset is not part of the spec and is
  not modelled.
\<close>

fun dim_list_to_bitset_loop :: "int list \<Rightarrow> nat \<Rightarrow> bool list \<Rightarrow> error + bool list" where
  "dim_list_to_bitset_loop [] n seen = Inr seen"
| "dim_list_to_bitset_loop (d # ds) n seen =
     bindE (maybe_wrap_dim d n True) (\<lambda>k.
       if k < length seen \<and> seen ! k then Inl DimRepeated
       else dim_list_to_bitset_loop ds n (seen[k := True]))"

definition dim_list_to_bitset :: "int list \<Rightarrow> nat \<Rightarrow> error + bool list" where
  "dim_list_to_bitset dims n = dim_list_to_bitset_loop dims n (replicate (max n 1) False)"

subsection \<open>Primitives\<close>

text \<open>
  Modelled from the spec: \<^verbatim>\<open>Tensor::size(dim)\<close> (not under src/), the shape query:
  the extent of one axis, an error for an axis the array does not have.
\<close>

definition size_at :: "'a tensor \<Rightarrow> int \<Rightarrow> error + nat" where
  "size_at t d = bindE (maybe_wrap_dim d (rank t) False) (\<lambda>k. Inr (sizes t ! k))"

text \<open>
  Modelled from the spec: \<^verbatim>\<open>Tensor::unsqueeze\<close> and \<^verbatim>\<open>Tensor::squeeze(dim)\<close> (not
  under src/), axis insertion and axis removal: a new axis of extent 1 at a position
  \<open>-(n+1) .. n\<close>; the removal of an axis whose extent is 1 (an axis of another extent
  is left alone). Neither moves an element.
\<close>

definition unsqueeze :: "'a tensor \<Rightarrow> int \<Rightarrow> error + 'a tensor" where
  "unsqueeze t d =
     bindE (maybe_wrap_dim d (rank t + 1) True) (\<lambda>k.
       Inr (Tensor (insert_nth k 1 (sizes t)) (data t)))"

definition squeeze :: "'a tensor \<Rightarrow> int \<Rightarrow> error + 'a tensor" where
  "squeeze t d =
     bindE (maybe_wrap_dim d (rank t) True) (\<lambda>k.
       if k < rank t \<and> sizes t ! k = 1 then Inr (Tensor (remove_nth k (sizes t)) (data t))
       else Inr t)"

text \<open>
  Modelled from the spec: \<^verbatim>\<open>Tensor::permute\<close> and \<^verbatim>\<open>Tensor::transpose\<close> (not under
  src/), axis permutation: axis \<open>k\<close> of the result is axis \<open>dims ! k\<close> of the argument;
  the list must name every axis once.
\<close>

definition permute_index :: "nat list \<Rightarrow> nat list \<Rightarrow> nat list" where
  "permute_index ds idx = map (\<lambda>a. idx ! index_of ds a) [0..<length ds]"

definition permute :: "'a tensor \<Rightarrow> int list \<Rightarrow> error + 'a tensor" where
  "permute t dims =
     (if length dims \<noteq> rank t then Inl PermuteDims
      else bindE (mapE (\<lambda>d. maybe_wrap_dim d (rank t) True) dims) (\<lambda>ds.
        if \<not> distinct ds then Inl DimRepeated
        else Inr (tabulate (map (\<lambda>d. sizes t ! d) ds) (\<lambda>idx. elem t (permute_index ds idx)))))"

definition transpose_dims :: "'a tensor \<Rightarrow> int \<Rightarrow> int \<Rightarrow> error + 'a tensor" where
  "transpose_dims t d0 d1 =
     bindE (maybe_wrap_dim d0 (rank t) True) (\<lambda>k0.
     bindE (maybe_wrap_dim d1 (rank t) True) (\<lambda>k1.
       if k0 = k1 \<or> rank t = 0 then Inr t
       else Inr (tabulate ((sizes t)[k0 := sizes t ! k1, k1 := sizes t ! k0])
                  (\<lambda>idx. elem t (idx[k0 := idx ! k1, k1 := idx ! k0])))))"

text \<open>
  Modelled from the spec: \<^verbatim>\<open>Tensor::diagonal(offset, dim1, dim2)\<close> (not under src/),
  diagonal extraction along two axes: the two axes are removed and the diagonal becomes
  the last axis; entry \<open>k\<close> of it is the entry at \<open>(k, k + offset)\<close> of the two axes
  (\<open>(k - offset, k)\<close> for a negative offset).
\<close>

definition diagonal :: "'a tensor \<Rightarrow> int \<Rightarrow> int \<Rightarrow> int \<Rightarrow> error + 'a tensor" where
  "diagonal t offset dim1 dim2 =
     bindE (maybe_wrap_dim dim1 (rank t) True) (\<lambda>k1.
     bindE (maybe_wrap_dim dim2 (rank t) True) (\<lambda>k2.
       if rank t = 0 then Inl DimOutOfRange
       else if k1 = k2 then Inl DiagonalSameDim
       else
         let s1 = int (sizes t ! k1); s2 = int (sizes t ! k2);
             dsize = nat (max 0 (if offset \<ge> 0 then min s1 (s2 - offset) else min (s1 + offset) s2));
             lo = min k1 k2; hi = max k1 k2;
             rest = remove_nth lo (remove_nth hi (sizes t))
         in Inr (tabulate (rest @ [dsize]) (\<lambda>idx.
              let k = last idx;
                  i1 = (if offset \<ge> 0 then k else nat (int k - offset));
                  i2 = (if offset \<ge> 0 then nat (int k + offset) else k);
                  base = butlast idx;
                  full = insert_nth hi (if hi = k1 then i1 else i2)
                           (insert_nth lo (if lo = k1 then i1 else i2) base)
              in elem t full))))"

text \<open>
  Modelled from the spec: \<^verbatim>\<open>at::mul\<close> and \<^verbatim>\<open>at::add\<close> (not under src/), the
  elementwise operations with broadcasting: shapes are aligned at their last axes, a
  missing or extent-1 axis is repeated to the other side's extent, and two extents that
  differ, neither being 1, are an error.
\<close>

fun broadcast_aligned :: "nat list \<Rightarrow> nat list \<Rightarrow> error + nat list" where
  "broadcast_aligned [] [] = Inr []"
| "broadcast_aligned (a # as) (b # bs) =
     (if a = b \<or> b = 1 then bindE (broadcast_aligned as bs) (\<lambda>r. Inr (a # r))
      else if a = 1 then bindE (broadcast_aligned as bs) (\<lambda>r. Inr (b # r))
      else Inl BroadcastMismatch)"
| "broadcast_aligned _ _ = Inl BroadcastMismatch"

definition broadcast_shapes :: "nat list \<Rightarrow> nat list \<Rightarrow> error + nat list" where
  "broadcast_shapes as bs =
     (let n = max (length as) (length bs) in
      broadcast_aligned (replicate (n - length as) 1 @ as) (replicate (n - length bs) 1 @ bs))"

definition broadcast_index :: "nat list \<Rightarrow> nat list \<Rightarrow> nat list" where
  "broadcast_index ns idx =
     map2 (\<lambda>n i. if n = 1 then 0 else i) ns (drop (length idx - length ns) idx)"

definition binop :: "('a \<Rightarrow> 'a \<Rightarrow> 'a) \<Rightarrow> 'a tensor \<Rightarrow> 'a tensor \<Rightarrow> error + 'a tensor" where
  "binop f a b =
     bindE (broadcast_shapes (sizes a) (sizes b)) (\<lambda>shape.
       Inr (tabulate shape (\<lambda>idx.
         f (elem a (broadcast_index (sizes a) idx)) (elem b (broadcast_index (sizes b) idx)))))"

definition mul :: "'a::comm_semiring_1 tensor \<Rightarrow> 'a tensor \<Rightarrow> error + 'a tensor" where
  "mul a b = binop (*) a b"

definition add :: "'a::comm_semiring_1 tensor \<Rightarrow> 'a tensor \<Rightarrow> error + 'a tensor" where
  "add a b = binop (+) a b"

text \<open>
  Modelled from the spec: \<^verbatim>\<open>Tensor::sum(dim, keepdim)\<close> and \<^verbatim>\<open>Tensor::sum(dims)\<close>
  (not under src/), reduction-sum over a set of axes: each listed axis is summed out
  and, with \<open>keepdim\<close>, stays with extent 1, without it is removed. An empty list
  means every axis, as in ATen.
\<close>

definition sum_keep :: "'a::comm_semiring_1 tensor \<Rightarrow> nat \<Rightarrow> 'a tensor" where
  "sum_keep t k =
     tabulate ((sizes t)[k := 1])
       (\<lambda>idx. sum_list (map (\<lambda>c. elem t (idx[k := c])) [0..<sizes t ! k]))"

definition drop_axes :: "bool list \<Rightarrow> 'b list \<Rightarrow> 'b list" where
  "drop_axes msk xs = map snd (filter (\<lambda>p. \<not> fst p) (zip msk xs))"

definition sum_dimlist :: "'a::comm_semiring_1 tensor \<Rightarrow> int list \<Rightarrow> bool \<Rightarrow> error + 'a tensor" where
  "sum_dimlist t dims keepdim =
     bindE (dim_list_to_bitset dims (rank t)) (\<lambda>seen.
       let msk = (if dims = [] then replicate (rank t) True else take (rank t) seen);
           r = fold (\<lambda>k acc. if msk ! k then sum_keep acc k else acc) [0..<rank t] t
       in Inr (if keepdim then r else Tensor (drop_axes msk (sizes r)) (data r)))"

definition sum_dim :: "'a::comm_semiring_1 tensor \<Rightarrow> int \<Rightarrow> bool \<Rightarrow> error + 'a tensor" where
  "sum_dim t d keepdim = sum_dimlist t [d] keepdim"

text \<open>
  Modelled from the spec: \<^verbatim>\<open>at::bmm\<close> and \<^verbatim>\<open>at::mm\<close> (not under src/), batched
  matrix multiply and matrix multiply: \<open>[b, n, m]\<close> times \<open>[b, m, p]\<close> is \<open>[b, n, p]\<close>,
  each entry the sum over the shared axis of the products.
\<close>

definition bmm :: "'a::comm_semiring_1 tensor \<Rightarrow> 'a tensor \<Rightarrow> error + 'a tensor" where
  "bmm l r =
     (case (sizes l, sizes r) of
        ([b, n, m], [b', m', p]) \<Rightarrow>
          if b = b' \<and> m = m' then
            Inr (tabulate [b, n, p] (\<lambda>idx.
              sum_list (map (\<lambda>k. elem l [idx ! 0, idx ! 1, k] * elem r [idx ! 0, k, idx ! 2]) [0..<m])))
          else Inl MatmulShape
      | _ \<Rightarrow> Inl MatmulShape)"

definition mm :: "'a::comm_semiring_1 tensor \<Rightarrow> 'a tensor \<Rightarrow> error + 'a tensor" where
  "mm l r =
     (case (sizes l, sizes r) of
        ([n, m], [m', p]) \<Rightarrow>
          if m = m' then
            Inr (tabulate [n, p] (\<lambda>idx.
              sum_list (map (\<lambda>k. elem l [idx ! 0, k] * elem r [k, idx ! 1]) [0..<m])))
          else Inl MatmulShape
      | _ \<Rightarrow> Inl MatmulShape)"

text \<open>
  Modelled from the spec: \<^verbatim>\<open>Tensor::reshape\<close> and \<^verbatim>\<open>Tensor::view\<close> (not under
  src/), reshape/view: the same elements in the same row-major order under new extents
  whose product is the number of elements. One extent may be written \<open>-1\<close> and is then
  inferred (ATen's \<^verbatim>\<open>infer_size\<close>); any other negative extent is an error, and so is
  an inferred extent beside a zero one. Without strides \<open>view\<close> is \<open>reshape\<close>.
\<close>

fun infer_size_loop :: "int list \<Rightarrow> nat \<Rightarrow> int \<Rightarrow> nat option \<Rightarrow> error + (int \<times> nat option)" where
  "infer_size_loop [] dim newsize infer_dim = Inr (newsize, infer_dim)"
| "infer_size_loop (s # shape) dim newsize infer_dim =
     (if s = - 1 then
        (if infer_dim \<noteq> None then Inl ShapeInvalid
         else infer_size_loop shape (dim + 1) newsize (Some dim))
      else if s \<ge> 0 then infer_size_loop shape (dim + 1) (newsize * s) infer_dim
      else Inl ShapeInvalid)"

definition infer_size :: "int list \<Rightarrow> nat \<Rightarrow> error + nat list" where
  "infer_size shape n =
     bindE (infer_size_loop shape 0 1 None) (\<lambda>(newsize, infer_dim).
       if int n = newsize \<or> (infer_dim \<noteq> None \<and> newsize > 0 \<and> int n mod newsize = 0) then
         (case infer_dim of
            None \<Rightarrow> Inr (map nat shape)
          | Some d \<Rightarrow>
              if newsize = 0 then Inl ShapeInvalid
              else Inr ((map nat shape)[d := n div nat newsize]))
       else Inl ShapeInvalid)"

definition reshape :: "'a tensor \<Rightarrow> int list \<Rightarrow> error + 'a tensor" where
  "reshape t shape = bindE (infer_size shape (numel t)) (\<lambda>ns. Inr (Tensor ns (data t)))"

definition view :: "'a tensor \<Rightarrow> int list \<Rightarrow> error + 'a tensor" where
  "view t shape = reshape t shape"

text \<open>
  Modelled from the spec: \<^verbatim>\<open>Tensor::narrow\<close>, \<^verbatim>\<open>at::zeros\<close> and \<^verbatim>\<open>Tensor::add_\<close>
  (not under src/): the slice \<open>start .. start + len - 1\<close> of one axis; the array of
  zeros; and the in-place sum, whose argument must broadcast to the shape of the array
  it is added to. \<^verbatim>\<open>t.narrow(d, k, 1).add_(buf)\<close> writes through the slice into \<open>t\<close>;
  \<open>narrow_add_inplace\<close> returns \<open>t\<close> so updated.
\<close>

definition narrow :: "'a tensor \<Rightarrow> int \<Rightarrow> nat \<Rightarrow> nat \<Rightarrow> error + 'a tensor" where
  "narrow t d start len =
     (if rank t = 0 then Inl DimOutOfRange
      else bindE (maybe_wrap_dim d (rank t) True) (\<lambda>k.
        if start + len > sizes t ! k then Inl NarrowRange
        else Inr (tabulate ((sizes t)[k := len]) (\<lambda>idx. elem t (idx[k := idx ! k + start])))))"

definition zeros :: "nat list \<Rightarrow> 'a::comm_semiring_1 tensor" where
  "zeros ns = tabulate ns (\<lambda>idx. 0)"

definition add_inplace :: "'a::comm_semiring_1 tensor \<Rightarrow> 'a tensor \<Rightarrow> error + 'a tensor" where
  "add_inplace self other =
     bindE (broadcast_shapes (sizes self) (sizes other)) (\<lambda>shape.
       if shape \<noteq> sizes self then Inl BroadcastMismatch
       else Inr (tabulate shape (\<lambda>idx.
         elem self idx + elem other (broadcast_index (sizes other) idx))))"

definition narrow_add_inplace :: "'a::comm_semiring_1 tensor \<Rightarrow> int \<Rightarrow> nat \<Rightarrow> 'a tensor \<Rightarrow> error + 'a tensor" where
  "narrow_add_inplace t d k buf =
     bindE (narrow t d k 1) (\<lambda>slice.
     bindE (add_inplace slice buf) (\<lambda>slice'.
     bindE (maybe_wrap_dim d (rank t) True) (\<lambda>kd.
       Inr (tabulate (sizes t) (\<lambda>idx.
         if idx ! kd = k then elem slice' (idx[kd := 0]) else elem t idx)))))"

section \<open>einsum\<close>

text \<open>
  \<^verbatim>\<open>equation.find("->")\<close>, and the \<^verbatim>\<open>getline\<close> loop over the left-hand side: the
  loop runs while the stream is good, so a text with \<open>n\<close> commas gives \<open>n + 1\<close> tokens,
  the empty text one empty token.
\<close>

fun find_arrow :: "string \<Rightarrow> nat option" where
  "find_arrow (c # d # cs) =
     (if c = CHR ''-'' \<and> d = CHR ''>'' then Some 0 else map_option Suc (find_arrow (d # cs)))"
| "find_arrow _ = None"

fun getline_loop :: "string \<Rightarrow> string \<Rightarrow> string list" where
  "getline_loop token [] = [token]"
| "getline_loop token (c # cs) =
     (if c = CHR '','' then token # getline_loop [] cs else getline_loop (token @ [c]) cs)"

definition lhs_of :: "string \<Rightarrow> nat option \<Rightarrow> string" where
  "lhs_of equation arrow_pos = (case arrow_pos of None \<Rightarrow> equation | Some p \<Rightarrow> take p equation)"

definition total_labels :: nat where
  "total_labels = 26"

definition is_label :: "char \<Rightarrow> bool" where
  "is_label c = ((97::nat) \<le> of_char c \<and> of_char c \<le> (122::nat))"

definition label_of :: "char \<Rightarrow> nat" where
  "label_of c = of_char c - 97"

text \<open>
  Lines 167-192: the labels of each operand are counted; \<^verbatim>\<open>operand.size(count)\<close> is
  read for every label before the number of labels is compared with the rank.
  \<^verbatim>\<open>label_last_operand\<close> starts at \<^verbatim>\<open>(size_t) -1\<close>.
\<close>

fun parse_labels ::
  "'a tensor \<Rightarrow> nat \<Rightarrow> string \<Rightarrow> int list \<Rightarrow> nat list \<Rightarrow> nat \<Rightarrow> error + (int list \<times> nat list \<times> nat)" where
  "parse_labels operand i [] label_count label_last_operand count =
     Inr (label_count, label_last_operand, count)"
| "parse_labels operand i (c # cs) label_count label_last_operand count =
     (if c \<noteq> CHR '' '' then
        if \<not> is_label c then Inl (EinsumSubscriptRange c)
        else bindE (size_at operand (int count)) (\<lambda>s.
          parse_labels operand i cs
            (label_count[label_of c := label_count ! label_of c + 1])
            (if s > 1 then label_last_operand[label_of c := i] else label_last_operand)
            (count + 1))
      else parse_labels operand i cs label_count label_last_operand count)"

fun parse_operands ::
  "'a tensor list \<Rightarrow> string list \<Rightarrow> nat \<Rightarrow> int list \<Rightarrow> nat list \<Rightarrow> error + (int list \<times> nat list)" where
  "parse_operands (operand # operands) (labels # operand_labels) i label_count label_last_operand =
     bindE (parse_labels operand i labels label_count label_last_operand 0) (\<lambda>(lc, llo, count).
       if count \<noteq> rank operand then Inl (EinsumSubscriptCount count (rank operand) i)
       else parse_operands operands operand_labels (i + 1) lc llo)"
| "parse_operands _ _ i label_count label_last_operand = Inr (label_count, label_last_operand)"

text \<open>Lines 195-225: the output labels, implicit (no arrow) or explicit.\<close>

definition implicit_output_step ::
  "int list \<Rightarrow> nat \<Rightarrow> int list \<times> nat list \<times> nat \<Rightarrow> int list \<times> nat list \<times> nat" where
  "implicit_output_step label_count label = (\<lambda>(label_out_index, permuted_labels, out_index).
     if label_count ! label = 1
     then (label_out_index[label := int out_index], permuted_labels @ [label], out_index + 1)
     else (label_out_index, permuted_labels, out_index))"

fun explicit_output ::
  "string \<Rightarrow> int list \<Rightarrow> int list \<Rightarrow> nat list \<Rightarrow> nat \<Rightarrow> error + (int list \<times> int list \<times> nat list \<times> nat)" where
  "explicit_output [] label_count label_out_index permuted_labels out_index =
     Inr (label_count, label_out_index, permuted_labels, out_index)"
| "explicit_output (c # rhs) label_count label_out_index permuted_labels out_index =
     (if c \<noteq> CHR '' '' then
        if \<not> is_label c then Inl (EinsumSubscriptRange c)
        else if \<not> label_count ! label_of c > 0 then
          Inl (if label_count ! label_of c = - 1 then EinsumOutputRepeated c else EinsumOutputUnknown c)
        else explicit_output rhs (label_count[label_of c := - 1])
               (label_out_index[label_of c := int out_index])
               (permuted_labels @ [label_of c]) (out_index + 1)
      else explicit_output rhs label_count label_out_index permuted_labels out_index)"

text \<open>Lines 229-235: every other label that occurs becomes a contraction axis.\<close>

definition contraction_step ::
  "int list \<Rightarrow> nat \<Rightarrow> int list \<times> nat list \<times> nat \<Rightarrow> int list \<times> nat list \<times> nat" where
  "contraction_step label_count label = (\<lambda>(label_out_index, permuted_labels, out_index).
     if label_count ! label > 0 \<and> label_out_index ! label = - 1
     then (label_out_index[label := int out_index], permuted_labels @ [label], out_index + 1)
     else (label_out_index, permuted_labels, out_index))"

text \<open>
  The plan of a call: what lines 140-235 compute before any operand is touched.
\<close>

datatype plan = Plan
  (operand_labels: "string list")
  (label_count: "int list")
  (label_last_operand: "nat list")
  (label_out_index: "int list")
  (permuted_labels: "nat list")
  (out_size: nat)
  (out_index: nat)

definition einsum_plan :: "string \<Rightarrow> 'a tensor list \<Rightarrow> error + plan" where
  "einsum_plan equation operands =
     (if operands = [] then Inl EinsumNoOperands
      else
        let arrow_pos = find_arrow equation;
            ols = getline_loop [] (lhs_of equation arrow_pos)
        in
        if length ols \<noteq> length operands
        then Inl (EinsumOperandCount (length ols) (length operands))
        else
          bindE (parse_operands operands ols 0 (replicate total_labels 0)
                   (replicate total_labels (2 ^ 64 - 1))) (\<lambda>(lc, llo).
          bindE (case arrow_pos of
                   None \<Rightarrow>
                     (case fold (implicit_output_step lc) [0..<total_labels]
                             (replicate total_labels (- 1), [], 0) of
                        (loi, pl, oi) \<Rightarrow> Inr (lc, loi, pl, oi))
                 | Some p \<Rightarrow>
                     explicit_output (drop (p + 2) equation) lc
                       (replicate total_labels (- 1)) [] 0) (\<lambda>(lc', loi, pl, osz).
          (case fold (contraction_step lc') [0..<total_labels] (loi, pl, osz) of
             (loi', pl', oi) \<Rightarrow> Inr (Plan ols lc' llo loi' pl' osz oi)))))"

text \<open>
  Lines 239-276: one operand is aligned with the global axis order. A label seen before
  in the same operand takes the diagonal of its two axes and puts it where the first
  one was. Every label met here was counted by \<open>parse_labels\<close>, so it is in range and
  has a slot in \<^verbatim>\<open>label_out_index\<close>.
\<close>

fun align_labels ::
  "nat \<Rightarrow> string \<Rightarrow> int list \<Rightarrow> 'a tensor \<Rightarrow> int list \<Rightarrow> int list \<Rightarrow> nat \<Rightarrow>
     error + ('a tensor \<times> int list \<times> nat)" where
  "align_labels i [] loi operand perm_shape label_dim j = Inr (operand, perm_shape, j)"
| "align_labels i (c # cs) loi operand perm_shape label_dim j =
     (if c \<noteq> CHR '' '' then
        if label_dim ! label_of c \<noteq> - 1 then
          (let dim = label_dim ! label_of c in
           bindE (size_at operand (int j)) (\<lambda>sj.
           bindE (size_at operand dim) (\<lambda>sd.
             if sj \<noteq> sd then Inl (EinsumDiagonalSizes c i sj sd)
             else
               bindE (diagonal operand 0 (int j) dim) (\<lambda>t1.
               bindE (unsqueeze t1 dim) (\<lambda>t2.
               bindE (transpose_dims t2 dim (- 1)) (\<lambda>t3.
               bindE (squeeze t3 (- 1)) (\<lambda>t4.
                 align_labels i cs loi t4 perm_shape label_dim j)))))))
        else align_labels i cs loi operand
               (perm_shape[nat (loi ! label_of c) := int j])
               (label_dim[label_of c := int j]) (j + 1)
      else align_labels i cs loi operand perm_shape label_dim j)"

fun fill_perm_shape :: "int list \<Rightarrow> 'a tensor \<Rightarrow> nat \<Rightarrow> error + ('a tensor \<times> int list)" where
  "fill_perm_shape [] operand j = Inr (operand, [])"
| "fill_perm_shape (index # perm_shape) operand j =
     (if index = - 1 then
        bindE (unsqueeze operand (- 1)) (\<lambda>operand'.
        bindE (fill_perm_shape perm_shape operand' (j + 1)) (\<lambda>(t, ps). Inr (t, int j # ps)))
      else bindE (fill_perm_shape perm_shape operand j) (\<lambda>(t, ps). Inr (t, index # ps)))"

definition align_operand :: "plan \<Rightarrow> nat \<Rightarrow> string \<Rightarrow> 'a tensor \<Rightarrow> error + 'a tensor" where
  "align_operand pl i labels operand =
     bindE (align_labels i labels (label_out_index pl) operand
              (replicate (out_index pl) (- 1)) (replicate total_labels (- 1)) 0) (\<lambda>(t, ps, j).
     bindE (fill_perm_shape ps t j) (\<lambda>(t', ps'). permute t' ps'))"

fun align_operands :: "plan \<Rightarrow> nat \<Rightarrow> string list \<Rightarrow> 'a tensor list \<Rightarrow> error + 'a tensor list" where
  "align_operands pl i (labels # ols) (operand # operands) =
     bindE (align_operand pl i labels operand) (\<lambda>t.
     bindE (align_operands pl (i + 1) ols operands) (\<lambda>ts. Inr (t # ts)))"
| "align_operands pl i _ _ = Inr []"

text \<open>Lines 278-289: the product of all aligned operands, then one sum.\<close>

fun mul_all :: "'a::comm_semiring_1 tensor \<Rightarrow> 'a tensor list \<Rightarrow> error + 'a tensor" where
  "mul_all result [] = Inr result"
| "mul_all result (t # ts) = bindE (mul result t) (\<lambda>r. mul_all r ts)"

definition einsum_compute :: "plan \<Rightarrow> 'a::comm_semiring_1 tensor list \<Rightarrow> error + 'a tensor" where
  "einsum_compute pl permuted_operands =
     bindE (mul_all (hd permuted_operands) (tl permuted_operands)) (\<lambda>result.
       if out_size pl < out_index pl
       then sum_dimlist result (map int [out_size pl..<out_index pl]) False
       else Inr result)"

definition einsum :: "string \<Rightarrow> 'a::comm_semiring_1 tensor list \<Rightarrow> error + 'a tensor" where
  "einsum equation operands =
     bindE (einsum_plan equation operands) (\<lambda>pl.
     bindE (align_operands pl 0 (operand_labels pl) operands) (\<lambda>permuted_operands.
       einsum_compute pl permuted_operands))"

section \<open>sumproduct_pair\<close>

text \<open>
  Lines 39-137. Extents and their products are \<^verbatim>\<open>int64_t\<close> in the source and naturals
  here: the product of the extents of an array that holds an element fits 64 bits.
  The loop index \<open>i\<close> is below the rank, so \<^verbatim>\<open>left.size(i)\<close> is \<open>sizes left ! i\<close>.
\<close>

record 'a sp_state =
  lro :: "nat list"
  lo :: "nat list"
  ro :: "nat list"
  lro_size :: nat
  lo_size :: nat
  ro_size :: nat
  sum_size :: nat
  left :: "'a tensor"
  right :: "'a tensor"

definition sumproduct_step ::
  "bool list \<Rightarrow> nat \<Rightarrow> 'a::comm_semiring_1 sp_state \<Rightarrow> error + 'a sp_state" where
  "sumproduct_step sum_dims i st =
     (let sl = sizes (left st) ! i > 1;
          sr = sizes (right st) ! i > 1
      in
      if sum_dims ! i then
        if sl \<and> sr then
          if sizes (left st) ! i \<noteq> sizes (right st) ! i then Inl SumproductNonBroadcast
          else Inr (st\<lparr>sum_size := sum_size st * sizes (left st) ! i\<rparr>)
        else if sl then bindE (sum_dim (left st) (int i) True) (\<lambda>t. Inr (st\<lparr>left := t\<rparr>))
        else if sr then bindE (sum_dim (right st) (int i) True) (\<lambda>t. Inr (st\<lparr>right := t\<rparr>))
        else Inr st
      else if sl \<and> sr then
        if sizes (left st) ! i \<noteq> sizes (right st) ! i then Inl SumproductNonBroadcast
        else Inr (st\<lparr>lro := lro st @ [i], lro_size := lro_size st * sizes (left st) ! i\<rparr>)
      else if sl then
        Inr (st\<lparr>lo := lo st @ [i], lo_size := lo_size st * sizes (left st) ! i\<rparr>)
      else
        Inr (st\<lparr>ro := ro st @ [i], ro_size := ro_size st * sizes (right st) ! i\<rparr>))"

fun sumproduct_loop ::
  "bool list \<Rightarrow> nat list \<Rightarrow> 'a::comm_semiring_1 sp_state \<Rightarrow> error + 'a sp_state" where
  "sumproduct_loop sum_dims [] st = Inr st"
| "sumproduct_loop sum_dims (i # axes) st =
     bindE (sumproduct_step sum_dims i st) (sumproduct_loop sum_dims axes)"

text \<open>
  Lines 102-118: \<^verbatim>\<open>opermutation[*it] = i\<close> writes into a vector of \<open>n\<close> entries; an
  index outside it (a negative entry of \<^verbatim>\<open>sum_dims_\<close>) is undefined behaviour in the
  source and an error here.
\<close>

fun opermutation_loop :: "int list \<Rightarrow> nat \<Rightarrow> int list \<Rightarrow> error + int list" where
  "opermutation_loop [] i opermutation = Inr opermutation"
| "opermutation_loop (d # ds) i opermutation =
     (if d < 0 \<or> d \<ge> int (length opermutation) then Inl VectorOutOfBounds
      else opermutation_loop ds (i + 1) (opermutation[nat d := int i]))"

definition erase_summed :: "bool list \<Rightarrow> nat \<Rightarrow> nat list \<Rightarrow> nat list" where
  "erase_summed sum_dims dim szs =
     fold (\<lambda>i acc. if sum_dims ! i then remove_nth i acc else acc) (rev [0..<dim]) szs"

definition sumproduct_pair ::
  "'a::comm_semiring_1 tensor \<Rightarrow> 'a tensor \<Rightarrow> int list \<Rightarrow> bool \<Rightarrow> error + 'a tensor" where
  "sumproduct_pair left_in right_in sum_dims_in keepdim =
     (if rank left_in \<noteq> rank right_in then Inl SumproductRank
      else if sum_dims_in = [] then mul left_in right_in
      else
        let dim = rank left_in in
        bindE (dim_list_to_bitset sum_dims_in dim) (\<lambda>sum_dims.
        bindE (sumproduct_loop sum_dims [0..<dim]
                 \<lparr>lro = [], lo = [], ro = [], lro_size = 1, lo_size = 1, ro_size = 1,
                  sum_size = 1, left = left_in, right = right_in\<rparr>) (\<lambda>st.
        let out_size = map (\<lambda>d. sizes (left st) ! d) (lro st) @ map (\<lambda>d. sizes (left st) ! d) (lo st)
                         @ map (\<lambda>d. 1) sum_dims_in @ map (\<lambda>d. sizes (right st) ! d) (ro st);
            lpermutation = map int (lro st) @ map int (lo st) @ sum_dims_in @ map int (ro st);
            rpermutation = map int (lro st) @ sum_dims_in @ map int (ro st) @ map int (lo st)
        in
        bindE (opermutation_loop lpermutation 0
                 (replicate (length (lro st) + length (lo st) + length sum_dims_in + length (ro st)) (- 1)))
          (\<lambda>opermutation.
        bindE (permute (left st) lpermutation) (\<lambda>lp.
        bindE (reshape lp [int (lro_size st), int (lo_size st), int (sum_size st)]) (\<lambda>l3.
        bindE (permute (right st) rpermutation) (\<lambda>rp.
        bindE (reshape rp [int (lro_size st), int (sum_size st), int (ro_size st)]) (\<lambda>r3.
        bindE (bmm l3 r3) (\<lambda>result.
        bindE (view result (map int out_size)) (\<lambda>v.
        bindE (permute v opermutation) (\<lambda>result'.
          if \<not> keepdim then view result' (map int (erase_summed sum_dims dim (sizes result')))
          else Inr result')))))))))))"

section \<open>_trilinear and bilinear\<close>

text \<open>
  Lines 318-385. The first loop inserts the expanded axes and collects the output
  extents and the two lists of summed axes; \<^verbatim>\<open>s\<close> is the extent read last, from the
  third operand if it has the axis, else the second, else the first, and 0 when all three
  are expanded there. \<^verbatim>\<open>unroll_size\<close> starts at \<open>-1\<close>.
\<close>

record 'a tri_state =
  i1 :: "'a tensor"
  i2 :: "'a tensor"
  i3 :: "'a tensor"
  output_size :: "nat list"
  sum_dims_12 :: "int list"
  sum_dims_23 :: "int list"
  unroll_size :: int

definition trilinear_step ::
  "bool list \<Rightarrow> bool list \<Rightarrow> bool list \<Rightarrow> bool list \<Rightarrow> nat \<Rightarrow> nat \<Rightarrow> 'a tri_state \<Rightarrow>
     error + 'a tri_state" where
  "trilinear_step expand1 expand2 expand3 sumdim unroll_dim i st =
     bindE (if expand1 ! i then bindE (unsqueeze (i1 st) (int i)) (\<lambda>t. Inr (t, 0))
            else bindE (size_at (i1 st) (int i)) (\<lambda>s. Inr (i1 st, s))) (\<lambda>(t1, s1).
     bindE (if expand2 ! i then bindE (unsqueeze (i2 st) (int i)) (\<lambda>t. Inr (t, s1))
            else bindE (size_at (i2 st) (int i)) (\<lambda>s. Inr (i2 st, s))) (\<lambda>(t2, s2).
     bindE (if expand3 ! i then bindE (unsqueeze (i3 st) (int i)) (\<lambda>t. Inr (t, s2))
            else bindE (size_at (i3 st) (int i)) (\<lambda>s. Inr (i3 st, s))) (\<lambda>(t3, s).
       Inr (st\<lparr>i1 := t1, i2 := t2, i3 := t3,
               output_size := output_size st @ [if sumdim ! i then 1 else s],
               sum_dims_12 := (if expand3 ! i \<and> sumdim ! i \<and> i \<noteq> unroll_dim
                               then sum_dims_12 st @ [int i] else sum_dims_12 st),
               sum_dims_23 := (if \<not> expand3 ! i \<and> sumdim ! i \<and> i \<noteq> unroll_dim
                               then sum_dims_23 st @ [int i] else sum_dims_23 st),
               unroll_size := (if i = unroll_dim then int s else unroll_size st)\<rparr>))))"

fun trilinear_setup ::
  "bool list \<Rightarrow> bool list \<Rightarrow> bool list \<Rightarrow> bool list \<Rightarrow> nat \<Rightarrow> nat list \<Rightarrow> 'a tri_state \<Rightarrow>
     error + 'a tri_state" where
  "trilinear_setup expand1 expand2 expand3 sumdim unroll_dim [] st = Inr st"
| "trilinear_setup expand1 expand2 expand3 sumdim unroll_dim (i # axes) st =
     bindE (trilinear_step expand1 expand2 expand3 sumdim unroll_dim i st)
       (trilinear_setup expand1 expand2 expand3 sumdim unroll_dim axes)"

text \<open>
  Lines 364-380: one pass of the unrolled loop computes \<^verbatim>\<open>buf\<close> from the slices at \<open>k\<close>
  (slice 0 of an operand expanded at the unroll axis) and adds it to slice \<open>k\<close> of the
  output, or to the whole output when the unroll axis is summed.
\<close>

definition trilinear_buf ::
  "'a::comm_semiring_1 tri_state \<Rightarrow> nat \<Rightarrow> nat \<Rightarrow> nat \<Rightarrow> nat \<Rightarrow> nat \<Rightarrow> error + 'a tensor" where
  "trilinear_buf st unroll_dim slicemul1 slicemul2 slicemul3 k =
     bindE (narrow (i1 st) (int unroll_dim) (k * slicemul1) 1) (\<lambda>n1.
     bindE (narrow (i2 st) (int unroll_dim) (k * slicemul2) 1) (\<lambda>n2.
     bindE (sumproduct_pair n1 n2 (sum_dims_12 st) True) (\<lambda>buf.
     bindE (narrow (i3 st) (int unroll_dim) (k * slicemul3) 1) (\<lambda>n3.
       sumproduct_pair buf n3 (sum_dims_23 st) True))))"

fun trilinear_unroll ::
  "'a::comm_semiring_1 tri_state \<Rightarrow> bool \<Rightarrow> nat \<Rightarrow> nat \<Rightarrow> nat \<Rightarrow> nat \<Rightarrow> nat list \<Rightarrow> 'a tensor \<Rightarrow>
     error + 'a tensor" where
  "trilinear_unroll st summed unroll_dim slicemul1 slicemul2 slicemul3 [] output = Inr output"
| "trilinear_unroll st summed unroll_dim slicemul1 slicemul2 slicemul3 (k # ks) output =
     bindE (trilinear_buf st unroll_dim slicemul1 slicemul2 slicemul3 k) (\<lambda>buf.
     bindE (if summed then add_inplace output buf
            else narrow_add_inplace output (int unroll_dim) k buf) (\<lambda>output'.
       trilinear_unroll st summed unroll_dim slicemul1 slicemul2 slicemul3 ks output'))"

fun squeeze_summed :: "bool list \<Rightarrow> nat list \<Rightarrow> 'a tensor \<Rightarrow> error + 'a tensor" where
  "squeeze_summed sumdim [] output = Inr output"
| "squeeze_summed sumdim (i # axes) output =
     (if sumdim ! i then bindE (squeeze output (int i)) (squeeze_summed sumdim axes)
      else squeeze_summed sumdim axes output)"

definition trilinear ::
  "'a::comm_semiring_1 tensor \<Rightarrow> 'a tensor \<Rightarrow> 'a tensor \<Rightarrow> int list \<Rightarrow> int list \<Rightarrow> int list \<Rightarrow>
     int list \<Rightarrow> int \<Rightarrow> error + 'a tensor" where
  "trilinear i1_in i2_in i3_in expand1_in expand2_in expand3_in sumdim_in unroll_dim =
     (let total_dim = rank i1_in + length expand1_in in
      if \<not> (unroll_dim \<ge> 0 \<and> unroll_dim < int total_dim) then Inl TrilinearUnrollDim
      else
        bindE (dim_list_to_bitset expand1_in total_dim) (\<lambda>expand1.
        bindE (dim_list_to_bitset expand2_in total_dim) (\<lambda>expand2.
        bindE (dim_list_to_bitset expand3_in total_dim) (\<lambda>expand3.
        bindE (dim_list_to_bitset sumdim_in total_dim) (\<lambda>sumdim.
        bindE (trilinear_setup expand1 expand2 expand3 sumdim (nat unroll_dim) [0..<total_dim]
                 \<lparr>i1 = i1_in, i2 = i2_in, i3 = i3_in, output_size = [], sum_dims_12 = [],
                  sum_dims_23 = [], unroll_size = - 1\<rparr>) (\<lambda>st.
        let slicemul1 = (if expand1 ! nat unroll_dim then 0 else 1);
            slicemul2 = (if expand2 ! nat unroll_dim then 0 else 1);
            slicemul3 = (if expand3 ! nat unroll_dim then 0 else 1)
        in
        bindE (trilinear_unroll st (sumdim ! nat unroll_dim) (nat unroll_dim)
                 slicemul1 slicemul2 slicemul3 [0..<nat (unroll_size st)]
                 (zeros (output_size st))) (\<lambda>output.
          squeeze_summed sumdim (rev [0..<rank output]) output)))))))"

text \<open>
  Lines 387-414. An undefined \<^verbatim>\<open>bias\<close> is \<open>None\<close>. The call of \<^verbatim>\<open>at::_trilinear\<close>
  leaves the unroll axis to its default, which the operator's declaration (not under
  src/) gives as 1.
\<close>

fun check_batch_dims :: "'a tensor \<Rightarrow> 'a tensor \<Rightarrow> nat list \<Rightarrow> error + unit" where
  "check_batch_dims input1 input2 [] = Inr ()"
| "check_batch_dims input1 input2 (i # axes) =
     (if sizes input1 ! i \<noteq> sizes input2 ! i then Inl (BilinearBatchDims i)
      else check_batch_dims input1 input2 axes)"

definition bilinear ::
  "'a::comm_semiring_1 tensor \<Rightarrow> 'a tensor \<Rightarrow> 'a tensor \<Rightarrow> 'a tensor option \<Rightarrow> error + 'a tensor" where
  "bilinear input1 input2 weight bias =
     (if rank input1 \<noteq> rank input2 then Inl BilinearInputDims
      else
        bindE (check_batch_dims input1 input2 [0..<rank input1 - 1]) (\<lambda>_.
        bindE (size_at input1 (int (rank input1) - 1)) (\<lambda>f1.
        bindE (size_at weight 1) (\<lambda>w1.
        if f1 \<noteq> w1 then Inl BilinearInput1Size
        else
        bindE (size_at input2 (int (rank input2) - 1)) (\<lambda>f2.
        bindE (size_at weight 2) (\<lambda>w2.
        if f2 \<noteq> w2 then Inl BilinearInput2Size
        else
        bindE (case bias of
                 None \<Rightarrow> Inr ()
               | Some b \<Rightarrow>
                   bindE (size_at b 0) (\<lambda>b0.
                   bindE (size_at weight 0) (\<lambda>w0.
                     if b0 \<noteq> w0 then Inl BilinearBiasSize else Inr ()))) (\<lambda>_.
        bindE (size_at weight 0) (\<lambda>w0.
        let output_size = butlast (sizes input1) @ [w0] in
        bindE (size_at input1 (- 1)) (\<lambda>l1.
        bindE (view input1 [- 1, int l1]) (\<lambda>input1_flattened.
        bindE (size_at input2 (- 1)) (\<lambda>l2.
        bindE (view input2 [- 1, int l2]) (\<lambda>input2_flattened.
        bindE (trilinear input1_flattened weight input2_flattened [1, 3] [0] [1, 2] [2, 3] 1) (\<lambda>t.
        bindE (reshape t (map int output_size)) (\<lambda>output.
          case bias of None \<Rightarrow> Inr output | Some b \<Rightarrow> add output b))))))))))))))"

section \<open>tensordot\<close>

text \<open>
  Lines 418-472. \<^verbatim>\<open>int s1 = input1.size(dims1[i])\<close> narrows a 64-bit extent to 32
  bits; \<open>int32_of\<close> is that conversion. \<^verbatim>\<open>csize\<close> is the product of the narrowed
  extents and may be negative.
\<close>

definition int32_of :: "nat \<Rightarrow> int" where
  "int32_of n = sint (word_of_nat n :: 32 word)"

fun tensordot_loop ::
  "'a::comm_semiring_1 tensor \<Rightarrow> 'a tensor \<Rightarrow> (int \<times> int) list \<Rightarrow> int \<Rightarrow> 'a tensor \<Rightarrow> 'a tensor \<Rightarrow>
     error + (int \<times> 'a tensor \<times> 'a tensor)" where
  "tensordot_loop input1 input2 [] csize t1 t2 = Inr (csize, t1, t2)"
| "tensordot_loop input1 input2 ((d1, d2) # ds) csize t1 t2 =
     bindE (size_at input1 d1) (\<lambda>n1.
     bindE (size_at input2 d2) (\<lambda>n2.
       let s1 = int32_of n1; s2 = int32_of n2 in
       if s2 = 1 then
         bindE (sum_dim t1 d1 True) (\<lambda>t1'. tensordot_loop input1 input2 ds csize t1' t2)
       else if s1 = 1 then
         bindE (sum_dim t2 d2 True) (\<lambda>t2'. tensordot_loop input1 input2 ds csize t1 t2')
       else if s1 \<noteq> s2 then Inl TensordotContractedDims
       else tensordot_loop input1 input2 ds (csize * s1) t1 t2))"

definition tensordot ::
  "'a::comm_semiring_1 tensor \<Rightarrow> 'a tensor \<Rightarrow> int list \<Rightarrow> int list \<Rightarrow> error + 'a tensor" where
  "tensordot input1 input2 dims1 dims2 =
     (if length dims1 \<noteq> length dims2 then Inl TensordotListLength
      else
        bindE (tensordot_loop input1 input2 (zip dims1 dims2) 1 input1 input2) (\<lambda>(csize, t1, t2).
        bindE (dim_list_to_bitset dims1 (rank input1)) (\<lambda>cdims1.
        bindE (dim_list_to_bitset dims2 (rank input2)) (\<lambda>cdims2.
        let free1 = filter (\<lambda>i. \<not> cdims1 ! i) [0..<rank input1];
            free2 = filter (\<lambda>i. \<not> cdims2 ! i) [0..<rank input2];
            p1 = map int free1 @ dims1;
            p2 = dims2 @ map int free2;
            size1 = prod_list (map (\<lambda>i. sizes t1 ! i) free1);
            size2 = prod_list (map (\<lambda>i. sizes t2 ! i) free2);
            rsizes = map (\<lambda>i. sizes t1 ! i) free1 @ map (\<lambda>i. sizes t2 ! i) free2
        in
        bindE (permute t1 p1) (\<lambda>t1p.
        bindE (reshape t1p [int size1, csize]) (\<lambda>m1.
        bindE (permute t2 p2) (\<lambda>t2p.
        bindE (reshape t2p [csize, int size2]) (\<lambda>m2.
        bindE (mm m1 m2) (\<lambda>r.
          reshape r (map int rsizes))))))))))"

section \<open>Vocabulary of the statements\<close>

text \<open>
  Two shapes are compatible when they have the same rank and, at every axis, equal
  extents or an extent 1 on one side; \<open>broadcast_sizes\<close> is then the shape of the
  broadcast.
\<close>

definition compatible :: "nat list \<Rightarrow> nat list \<Rightarrow> bool" where
  "compatible as bs = list_all2 (\<lambda>a b. a = b \<or> a = 1 \<or> b = 1) as bs"

definition broadcast_sizes :: "nat list \<Rightarrow> nat list \<Rightarrow> nat list" where
  "broadcast_sizes as bs = map2 (\<lambda>a b. if a = 1 then b else a) as bs"

text \<open>
  The label groups of an equation as \<open>einsum\<close> reads them, the number of labels of a
  group (spaces are skipped), and the number of times a label occurs in all groups.
\<close>

definition label_groups :: "string \<Rightarrow> string list" where
  "label_groups equation = getline_loop [] (lhs_of equation (find_arrow equation))"

definition num_labels :: "string \<Rightarrow> nat" where
  "num_labels labels = length (filter (\<lambda>c. c \<noteq> CHR '' '') labels)"

definition valid_labels :: "string \<Rightarrow> bool" where
  "valid_labels labels = list_all (\<lambda>c. c = CHR '' '' \<or> is_label c) labels"



text \<open>The plan of \<open>ij,jk->ik\<close>, but for \<^verbatim>\<open>label_last_operand\<close>, which depends on the extents.\<close>

definition plan_ijjk :: "nat list \<Rightarrow> plan" where
  "plan_ijjk llo = Plan [''ij'', ''jk'']
     ((replicate total_labels 0)[8 := - 1, 9 := 2, 10 := - 1]) llo
     ((replicate total_labels (- 1))[8 := 0, 9 := 2, 10 := 1]) [8, 10, 9] 2 3"


text \<open>
  Sums over axes. \<open>nsum ks e f idx\<close> is the sum of \<open>f\<close> over all indices that agree with
  \<open>idx\<close> outside the axes \<open>ks\<close> and run, at an axis \<open>k\<close> of \<open>ks\<close>, over \<open>0 ..< e k\<close>.
  \<open>bget t idx\<close> reads \<open>t\<close> at the place of \<open>idx\<close> under broadcasting: an axis of extent 1
  is read at 0. \<open>scatter idx ks xs\<close> puts the components \<open>xs\<close> at the axes \<open>ks\<close> of \<open>idx\<close>.
\<close>

fun nsum :: "nat list \<Rightarrow> (nat \<Rightarrow> nat) \<Rightarrow> (nat list \<Rightarrow> 'a::comm_semiring_1) \<Rightarrow> nat list \<Rightarrow> 'a" where
  "nsum [] e f idx = f idx"
| "nsum (k # ks) e f idx = (\<Sum>c<e k. nsum ks e f (idx[k := c]))"

definition bget :: "'a tensor \<Rightarrow> nat list \<Rightarrow> 'a" where
  "bget t idx = elem t (broadcast_index (sizes t) idx)"

fun scatter :: "nat list \<Rightarrow> nat list \<Rightarrow> nat list \<Rightarrow> nat list" where
  "scatter idx (k # ks) (c # xs) = scatter (idx[k := c]) ks xs"
| "scatter idx _ _ = idx"

text \<open>
  The reference of pairwise contraction, in the words of the spec: the broadcast
  elementwise product, reduce-summed over the eliminated axes one axis after the other,
  the eliminated axes then kept with extent 1 or dropped from the shape.
\<close>

definition reduce_sum_ref :: "'a::comm_semiring_1 tensor \<Rightarrow> nat list \<Rightarrow> bool \<Rightarrow> 'a tensor" where
  "reduce_sum_ref t axes keepdim =
     (let r = fold (\<lambda>k acc. sum_keep acc k) axes t in
      if keepdim then r
      else Tensor (drop_axes (map (\<lambda>k. k \<in> set axes) [0..<rank t]) (sizes r)) (data r))"

definition sumproduct_ref ::
  "'a::comm_semiring_1 tensor \<Rightarrow> 'a tensor \<Rightarrow> nat list \<Rightarrow> bool \<Rightarrow> error + 'a tensor" where
  "sumproduct_ref l r axes keepdim =
     bindE (mul l r) (\<lambda>p. Inr (reduce_sum_ref p axes keepdim))"

text \<open>
  \<open>bvalid ns idx\<close>: \<open>idx\<close> is a place of an array of shape \<open>ns\<close> under broadcasting (at an
  axis of extent 1 any component is read as 0). \<open>positive ns\<close>: no extent is 0.
\<close>

definition bvalid :: "nat list \<Rightarrow> nat list \<Rightarrow> bool" where
  "bvalid ns idx = (length idx = length ns \<and> (\<forall>k<length ns. ns ! k = 1 \<or> idx ! k < ns ! k))"

definition positive :: "nat list \<Rightarrow> bool" where
  "positive ns = list_all (\<lambda>n. 0 < n) ns"

text \<open>
  The contraction of two aligned operands at an index: the sum, over the axes \<open>sd\<close>, of
  the product of the two broadcast entries.
\<close>

definition contraction ::
  "nat list \<Rightarrow> 'a::comm_semiring_1 tensor \<Rightarrow> 'a tensor \<Rightarrow> nat list \<Rightarrow> 'a" where
  "contraction sd l r idx =
     nsum sd (\<lambda>a. broadcast_sizes (sizes l) (sizes r) ! a) (\<lambda>j. bget l j * bget r j) idx"

text \<open>
  What the classification loop of \<open>sumproduct_pair\<close> leaves after the axes \<open>axes\<close>, in
  terms of the extents before the loop.
\<close>

definition loop_result ::
  "bool list \<Rightarrow> nat list \<Rightarrow> 'a::comm_semiring_1 sp_state \<Rightarrow> 'a sp_state" where
  "loop_result msk axes st =
     (let L = sizes (left st); R = sizes (right st) in
      st\<lparr>lro := lro st @ filter (\<lambda>i. \<not> msk ! i \<and> L ! i > 1 \<and> R ! i > 1) axes,
         lo := lo st @ filter (\<lambda>i. \<not> msk ! i \<and> L ! i > 1 \<and> \<not> R ! i > 1) axes,
         ro := ro st @ filter (\<lambda>i. \<not> msk ! i \<and> \<not> L ! i > 1) axes,
         lro_size := lro_size st * prod_list (map (\<lambda>i. L ! i) (filter (\<lambda>i. \<not> msk ! i \<and> L ! i > 1 \<and> R ! i > 1) axes)),
         lo_size := lo_size st * prod_list (map (\<lambda>i. L ! i) (filter (\<lambda>i. \<not> msk ! i \<and> L ! i > 1 \<and> \<not> R ! i > 1) axes)),
         ro_size := ro_size st * prod_list (map (\<lambda>i. R ! i) (filter (\<lambda>i. \<not> msk ! i \<and> \<not> L ! i > 1) axes)),
         sum_size := sum_size st * prod_list (map (\<lambda>i. L ! i) (filter (\<lambda>i. msk ! i \<and> L ! i > 1 \<and> R ! i > 1) axes)),
         left := fold (\<lambda>k acc. sum_keep acc k) (filter (\<lambda>i. msk ! i \<and> L ! i > 1 \<and> \<not> R ! i > 1) axes) (left st),
         right := fold (\<lambda>k acc. sum_keep acc k) (filter (\<lambda>i. msk ! i \<and> \<not> L ! i > 1 \<and> R ! i > 1) axes) (right st)\<rparr>)"

text \<open>Permutations of the axes \<open>0 ..< d\<close>, and their inverses.\<close>

definition is_perm :: "nat list \<Rightarrow> nat \<Rightarrow> bool" where
  "is_perm p d = (distinct p \<and> set p = {..<d})"

definition inv_perm :: "nat list \<Rightarrow> nat list" where
  "inv_perm p = map (index_of p) [0..<length p]"

text \<open>
  The labels of an operand in axis order; the distinct labels in the order of their
  first occurrence; and the operand "on its label diagonal": one axis for every distinct
  label, at the place of the label's first occurrence among the distinct labels, the
  entry at an index being the entry of the operand where every axis is indexed by the
  component of its label. \<open>scan_operand\<close>, \<open>scan_perm\<close> and \<open>scan_dim\<close> are the operand,
  \<^verbatim>\<open>perm_shape\<close> and \<^verbatim>\<open>label_dim\<close> of the alignment loop after the labels \<open>pre\<close>.
\<close>

definition labels_of :: "string \<Rightarrow> nat list" where
  "labels_of cs = map label_of (filter (\<lambda>c. c \<noteq> CHR '' '') cs)"

definition firsts :: "nat list \<Rightarrow> nat list" where
  "firsts ls = fold (\<lambda>l acc. if l \<in> set acc then acc else acc @ [l]) ls []"

definition label_diagonal :: "'a tensor \<Rightarrow> nat list \<Rightarrow> 'a tensor" where
  "label_diagonal t ls =
     tabulate (map (\<lambda>l. sizes t ! index_of ls l) (firsts ls))
       (\<lambda>idx. elem t (map (\<lambda>l. idx ! index_of (firsts ls) l) ls))"

definition scan_operand :: "'a tensor \<Rightarrow> nat list \<Rightarrow> 'a tensor" where
  "scan_operand t pre =
     tabulate (map (\<lambda>l. sizes t ! index_of pre l) (firsts pre) @ drop (length pre) (sizes t))
       (\<lambda>idx. elem t (map (\<lambda>l. idx ! index_of (firsts pre) l) pre @ drop (length (firsts pre)) idx))"

definition scan_perm :: "int list \<Rightarrow> nat list \<Rightarrow> int list \<Rightarrow> int list" where
  "scan_perm loi fs ps0 = fold (\<lambda>k ps. ps[nat (loi ! (fs ! k)) := int k]) [0..<length fs] ps0"

definition scan_dim :: "nat list \<Rightarrow> int list" where
  "scan_dim fs = map (\<lambda>l. if l \<in> set fs then int (index_of fs l) else - 1) [0..<total_labels]"

text \<open>
  References for the contraction routines, written from their contracts and not from the
  code. \<open>presum_ref l r a keepdim\<close> is the contraction of axis \<open>a\<close> when one side has
  extent 1 there: the other side is summed along \<open>a\<close> first and the product is taken with
  broadcasting. \<open>bilinear_ref\<close> is, for inputs with one batch axis, the array with the
  entry \<open>bias[o] + \<Sum>i j. x1[n,i] * weight[o,i,j] * x2[n,j]\<close> at \<open>(n, o)\<close>.
  \<open>trilinear_ref\<close> is the product of the three operands, each with its axes of extent 1
  inserted (in ascending order), summed over the listed axes, which are dropped.
\<close>

definition presum_ref ::
  "'a::comm_semiring_1 tensor \<Rightarrow> 'a tensor \<Rightarrow> nat \<Rightarrow> bool \<Rightarrow> error + 'a tensor" where
  "presum_ref l r a keepdim =
     bindE (if sizes r ! a = 1 then mul (sum_keep l a) r else mul l (sum_keep r a)) (\<lambda>p.
       Inr (if keepdim then p else Tensor (remove_nth a (sizes p)) (data p)))"

definition bilinear_ref ::
  "'a::comm_semiring_1 tensor \<Rightarrow> 'a tensor \<Rightarrow> 'a tensor \<Rightarrow> 'a tensor option \<Rightarrow> 'a tensor" where
  "bilinear_ref x1 x2 weight bias =
     tabulate [sizes x1 ! 0, sizes weight ! 0] (\<lambda>idx.
       (case bias of None \<Rightarrow> 0 | Some b \<Rightarrow> elem b [idx ! 1]) +
       sum_list (map (\<lambda>i. sum_list (map (\<lambda>j.
          elem x1 [idx ! 0, i] * elem weight [idx ! 1, i, j] * elem x2 [idx ! 0, j])
          [0..<sizes weight ! 2])) [0..<sizes weight ! 1]))"

fun unsqueeze_list :: "'a tensor \<Rightarrow> nat list \<Rightarrow> error + 'a tensor" where
  "unsqueeze_list t [] = Inr t"
| "unsqueeze_list t (a # axes) = bindE (unsqueeze t (int a)) (\<lambda>u. unsqueeze_list u axes)"

definition trilinear_ref ::
  "'a::comm_semiring_1 tensor \<Rightarrow> 'a tensor \<Rightarrow> 'a tensor \<Rightarrow> nat list \<Rightarrow> nat list \<Rightarrow> nat list \<Rightarrow>
     nat list \<Rightarrow> error + 'a tensor" where
  "trilinear_ref a b c expand1 expand2 expand3 sumdim =
     bindE (unsqueeze_list a expand1) (\<lambda>a'.
     bindE (unsqueeze_list b expand2) (\<lambda>b'.
     bindE (unsqueeze_list c expand3) (\<lambda>c'.
     bindE (mul a' b') (\<lambda>ab.
     bindE (mul ab c') (\<lambda>p. Inr (reduce_sum_ref p sumdim False))))))"

section \<open>Indices and elements\<close>

lemma bindE_Inr [simp]: "bindE (Inr v) f = f v"
  by (simp add: bindE_def)

lemma bindE_Inl [simp]: "bindE (Inl e) f = Inl e"
  by (simp add: bindE_def)

lemma bindE_eq_Inr: "bindE m f = Inr r \<longleftrightarrow> (\<exists>v. m = Inr v \<and> f v = Inr r)"
  by (cases m) simp_all

lemma length_all_indices: "length (all_indices ns) = prod_list ns"
proof (induction ns)
  case Nil
  show ?case by simp
next
  case (Cons n ns)
  have "length (concat (map (\<lambda>i. map ((#) i) (all_indices ns)) [0..<n])) = n * prod_list ns"
    using Cons.IH by (induction n) simp_all
  then show ?case by simp
qed

lemma nth_concat_blocks:
  "(\<And>x. x \<in> set xs \<Longrightarrow> length (f x) = p) \<Longrightarrow> i < length xs \<Longrightarrow> r < p \<Longrightarrow>
     concat (map f xs) ! (i * p + r) = f (xs ! i) ! r"
proof (induction xs arbitrary: i)
  case Nil
  then show ?case by simp
next
  case (Cons x xs)
  show ?case
  proof (cases i)
    case 0
    then show ?thesis using Cons.prems by (simp add: nth_append)
  next
    case (Suc j)
    have "concat (map f xs) ! (j * p + r) = f (xs ! j) ! r"
      using Cons.prems Suc by (intro Cons.IH) auto
    then show ?thesis using Cons.prems Suc by (simp add: nth_append)
  qed
qed

lemma ravel_less: "list_all2 (<) idx ns \<Longrightarrow> ravel ns idx < prod_list ns"
proof (induction idx ns rule: list_all2_induct)
  case Nil
  show ?case by simp
next
  case (Cons i idx n ns)
  have "i * prod_list ns + ravel ns idx < i * prod_list ns + prod_list ns"
    using Cons.IH by simp
  also have "\<dots> = Suc i * prod_list ns" by simp
  also have "\<dots> \<le> n * prod_list ns"
    using Cons.hyps by (intro mult_le_mono1) simp
  finally show ?case by simp
qed

lemma all_indices_nth_ravel:
  "list_all2 (<) idx ns \<Longrightarrow> all_indices ns ! ravel ns idx = idx"
proof (induction idx ns rule: list_all2_induct)
  case Nil
  show ?case by simp
next
  case (Cons i idx n ns)
  have "concat (map (\<lambda>i. map ((#) i) (all_indices ns)) [0..<n]) ! (i * prod_list ns + ravel ns idx)
        = (map ((#) ([0..<n] ! i)) (all_indices ns)) ! ravel ns idx"
    using Cons.hyps ravel_less[OF Cons.hyps(2)]
    by (intro nth_concat_blocks) (simp_all add: length_all_indices)
  then show ?case
    using Cons ravel_less[OF Cons.hyps(2)] by (simp add: length_all_indices)
qed

lemma set_all_indices: "set (all_indices ns) = {idx. list_all2 (<) idx ns}"
proof (induction ns)
  case Nil
  show ?case by auto
next
  case (Cons n ns)
  show ?case
  proof (intro set_eqI iffI)
    fix idx assume "idx \<in> set (all_indices (n # ns))"
    then show "idx \<in> {idx. list_all2 (<) idx (n # ns)}"
      using Cons.IH by auto
  next
    fix idx assume "idx \<in> {idx. list_all2 (<) idx (n # ns)}"
    then obtain i js where "idx = i # js" "i < n" "list_all2 (<) js ns"
      by (auto simp: list_all2_Cons2)
    then show "idx \<in> set (all_indices (n # ns))"
      using Cons.IH by auto
  qed
qed

lemma concat_blocks_upt:
  "concat (map (\<lambda>i. map (\<lambda>r. i * p + r) [0..<p]) [0..<n]) = [0..<n * p]"
proof (induction n)
  case 0
  show ?case by simp
next
  case (Suc n)
  have "map (\<lambda>r. n * p + r) [0..<p] = [n * p..<n * p + p]"
    by (simp add: map_add_upt add.commute)
  moreover have "[0..<n * p + p] = [0..<n * p] @ [n * p..<n * p + p]"
    by (rule upt_add_eq_append) simp
  moreover have "Suc n * p = n * p + p" by simp
  ultimately show ?case
    using Suc by (simp del: mult_Suc)
qed

lemma map_ravel_all_indices: "map (ravel ns) (all_indices ns) = [0..<prod_list ns]"
proof (induction ns)
  case Nil
  show ?case by simp
next
  case (Cons n ns)
  have "map (ravel (n # ns)) (all_indices (n # ns))
        = concat (map (\<lambda>i. map (\<lambda>r. i * prod_list ns + r) (map (ravel ns) (all_indices ns))) [0..<n])"
    by (simp add: map_concat comp_def)
  also have "\<dots> = [0..<n * prod_list ns]"
    by (simp only: Cons.IH concat_blocks_upt)
  finally show ?case by simp
qed

lemma ravel_all_indices_nth:
  assumes "k < prod_list ns"
  shows "ravel ns (all_indices ns ! k) = k"
proof -
  have "ravel ns (all_indices ns ! k) = map (ravel ns) (all_indices ns) ! k"
    using assms by (simp add: length_all_indices)
  then show ?thesis using assms by (simp add: map_ravel_all_indices)
qed

lemma distinct_all_indices: "distinct (all_indices ns)"
proof -
  have "distinct (map (ravel ns) (all_indices ns))"
    by (simp add: map_ravel_all_indices)
  then show ?thesis by (simp add: distinct_map)
qed

declare all_indices.simps [simp del]

lemma elem_tabulate: "valid_index ns idx \<Longrightarrow> elem (tabulate ns f) idx = f idx"
  by (simp add: elem_def tabulate_def valid_index_def all_indices_nth_ravel ravel_less length_all_indices)

lemma sizes_tabulate [simp]: "sizes (tabulate ns f) = ns"
  by (simp add: tabulate_def)

lemma wf_tabulate [simp]: "wf (tabulate ns f)"
  by (simp add: tabulate_def wf_def length_all_indices)

lemma tabulate_cong:
  "(\<And>idx. valid_index ns idx \<Longrightarrow> f idx = g idx) \<Longrightarrow> tabulate ns f = tabulate ns g"
  by (simp add: tabulate_def valid_index_def set_all_indices)

lemma tabulate_elem: "wf t \<Longrightarrow> tabulate (sizes t) (elem t) = t"
proof -
  assume w: "wf t"
  have "map (elem t) (all_indices (sizes t)) = data t"
  proof (rule nth_equalityI)
    show "length (map (elem t) (all_indices (sizes t))) = length (data t)"
      using w by (simp add: wf_def length_all_indices)
  next
    fix i assume "i < length (map (elem t) (all_indices (sizes t)))"
    then have "i < prod_list (sizes t)" by (simp add: length_all_indices)
    then show "map (elem t) (all_indices (sizes t)) ! i = data t ! i"
      by (simp add: elem_def ravel_all_indices_nth length_all_indices)
  qed
  then show ?thesis by (cases t) (simp add: tabulate_def)
qed

lemma tensor_eqI:
  assumes "wf a" "wf b" "sizes a = sizes b"
    and "\<And>idx. valid_index (sizes a) idx \<Longrightarrow> elem a idx = elem b idx"
  shows "a = b"
proof -
  have "tabulate (sizes a) (elem a) = tabulate (sizes a) (elem b)"
    by (rule tabulate_cong) (rule assms(4))
  then have "tabulate (sizes a) (elem a) = tabulate (sizes b) (elem b)"
    by (simp only: assms(3))
  then show ?thesis
    by (simp only: tabulate_elem[OF assms(1)] tabulate_elem[OF assms(2)])
qed

lemma valid_index_Cons:
  "valid_index (n # ns) idx \<longleftrightarrow> (\<exists>i js. idx = i # js \<and> i < n \<and> valid_index ns js)"
  by (auto simp: valid_index_def list_all2_Cons2)

lemma valid_index_Nil: "valid_index [] idx \<longleftrightarrow> idx = []"
  by (simp add: valid_index_def)

lemma sum_list_upt_sum: "sum_list (map f [0..<n]) = (\<Sum>j<n. f j)"
  by (simp add: interv_sum_list_conv_sum_set_nat atLeast0LessThan)

section \<open>Evaluating on literals\<close>

lemma list_update_Cons_numeral: "(x # xs)[numeral v := y] = x # xs[pred_numeral v := y]"
  by (simp add: numeral_eq_Suc)

lemma replicate_numeral: "replicate (numeral v) x = x # replicate (pred_numeral v) x"
  by (simp add: numeral_eq_Suc)

lemma labels_upt:
  "[0..<total_labels] =
     [0, 1, 2, 3, 4, 5, 6, 7, 8, 9, 10, 11, 12, 13, 14, 15, 16, 17, 18, 19, 20, 21, 22, 23, 24, 25]"
  by (simp add: total_labels_def eval_nat_numeral)

lemma replicate_labels:
  "replicate total_labels x =
     [x, x, x, x, x, x, x, x, x, x, x, x, x, x, x, x, x, x, x, x, x, x, x, x, x, x]"
  by (simp add: total_labels_def eval_nat_numeral)

lemmas eval_list = list_update_Cons_numeral labels_upt replicate_labels replicate_numeral

section \<open>Primitives on axes given as naturals\<close>

lemma size_at_simp: "0 \<le> d \<Longrightarrow> d < int (rank t) \<Longrightarrow> size_at t d = Inr (sizes t ! nat d)"
  by (simp add: size_at_def maybe_wrap_dim_def)

lemma unsqueeze_last: "unsqueeze t (- 1) = Inr (Tensor (sizes t @ [1]) (data t))"
  by (simp add: unsqueeze_def maybe_wrap_dim_def insert_nth_def rank_def)

lemma mapE_wrap_nat:
  "\<forall>p \<in> set ps. p < n \<Longrightarrow> mapE (\<lambda>d. maybe_wrap_dim d n True) (map int ps) = Inr ps"
  by (induction ps) (simp_all add: maybe_wrap_dim_def)

lemma permute_nat:
  assumes "length ps = rank t" "distinct ps" "\<forall>p \<in> set ps. p < rank t"
  shows "permute t (map int ps) =
    Inr (tabulate (map (\<lambda>d. sizes t ! d) ps) (\<lambda>idx. elem t (permute_index ps idx)))"
  using assms by (simp add: permute_def mapE_wrap_nat)

lemma broadcast_shapes_same_length:
  "length as = length bs \<Longrightarrow> broadcast_shapes as bs = broadcast_aligned as bs"
  by (simp add: broadcast_shapes_def)

lemma broadcast_aligned_ok:
  "compatible as bs \<Longrightarrow> broadcast_aligned as bs = Inr (broadcast_sizes as bs)"
  unfolding compatible_def broadcast_sizes_def
  by (induction as bs rule: list_all2_induct) auto

lemma mul_same_rank:
  assumes "compatible (sizes a) (sizes b)"
  shows "mul a b = Inr (tabulate (broadcast_sizes (sizes a) (sizes b)) (\<lambda>idx.
      elem a (broadcast_index (sizes a) idx) * elem b (broadcast_index (sizes b) idx)))"
proof -
  have "length (sizes a) = length (sizes b)"
    using assms by (simp add: compatible_def list_all2_lengthD)
  then show ?thesis
    using assms by (simp add: mul_def binop_def broadcast_shapes_same_length broadcast_aligned_ok)
qed

section \<open>Inserting and removing axes of extent 1\<close>

lemma length_insert_nth [simp]: "length (insert_nth k x xs) = Suc (length xs)"
  by (simp add: insert_nth_def)

lemma length_remove_nth [simp]: "k < length xs \<Longrightarrow> length (remove_nth k xs) = length xs - 1"
  by (simp add: remove_nth_def)

lemma nth_insert_nth:
  "k \<le> length xs \<Longrightarrow> i \<le> length xs \<Longrightarrow>
     insert_nth k x xs ! i = (if i < k then xs ! i else if i = k then x else xs ! (i - 1))"
proof -
  assume k: "k \<le> length xs" and i: "i \<le> length xs"
  consider "i < k" | "i = k" | "i > k" by linarith
  then show ?thesis
  proof cases
    case 1
    then show ?thesis using k by (simp add: insert_nth_def nth_append)
  next
    case 2
    then show ?thesis using k by (simp add: insert_nth_def nth_append)
  next
    case 3
    then obtain m where m: "i = Suc (k + m)" using less_iff_Suc_add by auto
    then show ?thesis using k i by (simp add: insert_nth_def nth_append)
  qed
qed

lemma nth_remove_nth:
  "k < length xs \<Longrightarrow> i < length xs - 1 \<Longrightarrow>
     remove_nth k xs ! i = (if i < k then xs ! i else xs ! Suc i)"
  by (auto simp: remove_nth_def nth_append)

lemma prod_list_insert_unit [simp]: "prod_list (insert_nth k (Suc 0) ns) = prod_list ns"
proof -
  have "prod_list (take k ns @ drop k ns) = prod_list ns" by simp
  then show ?thesis unfolding insert_nth_def prod_list.append by simp
qed

lemma insert_nth_Cons_Suc: "insert_nth (Suc k) x (y # ys) = y # insert_nth k x ys"
  by (simp add: insert_nth_def)

lemma insert_nth_0: "insert_nth 0 x ys = x # ys"
  by (simp add: insert_nth_def)

lemma ravel_insert_unit:
  "k \<le> length ns \<Longrightarrow> length idx = length ns \<Longrightarrow>
     ravel (insert_nth k 1 ns) (insert_nth k 0 idx) = ravel ns idx"
proof (induction k arbitrary: ns idx)
  case 0
  then show ?case by (simp add: insert_nth_0)
next
  case (Suc k)
  then obtain n ns' i idx' where "ns = n # ns'" "idx = i # idx'"
    by (cases ns; cases idx) auto
  then show ?case using Suc by (simp add: insert_nth_Cons_Suc)
qed

lemma insert_remove_nth: "k < length xs \<Longrightarrow> insert_nth k (xs ! k) (remove_nth k xs) = xs"
  by (simp add: insert_nth_def remove_nth_def id_take_nth_drop[symmetric])

lemma remove_insert_nth: "k \<le> length xs \<Longrightarrow> remove_nth k (insert_nth k x xs) = xs"
  by (simp add: insert_nth_def remove_nth_def)

lemma valid_index_length: "valid_index ns idx \<Longrightarrow> length idx = length ns"
  by (simp add: valid_index_def list_all2_lengthD)

lemma valid_index_nth: "valid_index ns idx \<Longrightarrow> k < length ns \<Longrightarrow> idx ! k < ns ! k"
  by (simp add: valid_index_def list_all2_nthD2)

lemma valid_indexI:
  "length idx = length ns \<Longrightarrow> (\<And>k. k < length ns \<Longrightarrow> idx ! k < ns ! k) \<Longrightarrow> valid_index ns idx"
  by (simp add: valid_index_def list_all2_conv_all_nth)

lemma elem_insert_unit:
  assumes "k \<le> length ns" "valid_index (insert_nth k 1 ns) idx"
  shows "elem (Tensor (insert_nth k 1 ns) d) idx = elem (Tensor ns d) (remove_nth k idx)"
proof -
  have len: "length idx = Suc (length ns)"
    using valid_index_length[OF assms(2)] by simp
  have "idx ! k < insert_nth k 1 ns ! k"
    using valid_index_nth[OF assms(2), of k] assms(1) by simp
  then have "idx ! k = 0"
    using assms(1) by (simp add: nth_insert_nth)
  then have "idx = insert_nth k 0 (remove_nth k idx)"
    using insert_remove_nth[of k idx] assms(1) len by simp
  moreover have "ravel (insert_nth k 1 ns) (insert_nth k 0 (remove_nth k idx)) = ravel ns (remove_nth k idx)"
    using assms(1) len by (intro ravel_insert_unit) simp_all
  ultimately show ?thesis by (simp add: elem_def)
qed

lemma elem_remove_unit:
  assumes "k < length ns" "ns ! k = 1" "length idx = length ns - 1"
  shows "elem (Tensor (remove_nth k ns) d) idx = elem (Tensor ns d) (insert_nth k 0 idx)"
proof -
  have "ns = insert_nth k 1 (remove_nth k ns)"
    using insert_remove_nth[of k ns] assms by simp
  moreover have "ravel (insert_nth k 1 (remove_nth k ns)) (insert_nth k 0 idx) = ravel (remove_nth k ns) idx"
    using assms by (intro ravel_insert_unit) simp_all
  ultimately show ?thesis by (simp add: elem_def)
qed

lemma maybe_wrap_dim_nat: "k < n \<Longrightarrow> maybe_wrap_dim (int k) n b = Inr k"
  by (simp add: maybe_wrap_dim_def)

lemma maybe_wrap_dim_last: "0 < n \<Longrightarrow> maybe_wrap_dim (- 1) n b = Inr (n - 1)"
  by (auto simp: maybe_wrap_dim_def nat_diff_distrib int_ops)

lemma prod_list_remove_unit:
  assumes "k < length ns" "ns ! k = Suc 0"
  shows "prod_list (remove_nth k ns) = prod_list ns"
proof -
  have "prod_list (insert_nth k (Suc 0) (remove_nth k ns)) = prod_list (remove_nth k ns)"
    by simp
  moreover have "insert_nth k (Suc 0) (remove_nth k ns) = ns"
    using insert_remove_nth[of k ns] assms by simp
  ultimately show ?thesis by simp
qed

lemma elem_insert_unit':
  assumes "k \<le> length ns" "length idx = Suc (length ns)" "idx ! k = 0"
  shows "elem (Tensor (insert_nth k 1 ns) d) idx = elem (Tensor ns d) (remove_nth k idx)"
proof -
  have "idx = insert_nth k 0 (remove_nth k idx)"
    using insert_remove_nth[of k idx] assms by simp
  moreover have "ravel (insert_nth k 1 ns) (insert_nth k 0 (remove_nth k idx)) = ravel ns (remove_nth k idx)"
    using assms by (intro ravel_insert_unit) simp_all
  ultimately show ?thesis by (simp add: elem_def)
qed

lemma valid_index_remove_nth:
  "valid_index ns idx \<Longrightarrow> valid_index (remove_nth k ns) (remove_nth k idx)"
  unfolding valid_index_def remove_nth_def
  by (intro list_all2_appendI list_all2_takeI list_all2_dropI)

lemma valid_index_append:
  "valid_index ns idx \<Longrightarrow> valid_index ms jdx \<Longrightarrow> valid_index (ns @ ms) (idx @ jdx)"
  unfolding valid_index_def by (rule list_all2_appendI)


section \<open>Sums over axes\<close>

lemma nsum_cong:
  "(\<And>jdx. f jdx = g jdx) \<Longrightarrow> (\<And>k. k \<in> set ks \<Longrightarrow> e k = e' k) \<Longrightarrow> nsum ks e f idx = nsum ks e' g idx"
  by (induction ks arbitrary: idx) simp_all

lemma nsum_append: "nsum (ks @ ks') e f idx = nsum ks e (nsum ks' e f) idx"
  by (induction ks arbitrary: idx) simp_all

lemma nsum_mult_left: "nsum ks e (\<lambda>j. a * f j) idx = a * nsum ks e f idx"
  by (induction ks arbitrary: idx) (simp_all add: sum_distrib_left)

lemma nsum_mult_right: "nsum ks e (\<lambda>j. f j * a) idx = nsum ks e f idx * a"
  by (induction ks arbitrary: idx) (simp_all add: sum_distrib_right)

lemma nsum_swap2:
  "a \<noteq> b \<Longrightarrow> nsum (a # b # ks) e f idx = nsum (b # a # ks) e f idx"
proof -
  assume ab: "a \<noteq> b"
  have "(\<Sum>c<e a. \<Sum>c'<e b. nsum ks e f (idx[a := c, b := c']))
      = (\<Sum>c'<e b. \<Sum>c<e a. nsum ks e f (idx[a := c, b := c']))"
    by (rule sum.swap)
  then show ?thesis using ab by (simp add: list_update_swap[of a b])
qed

lemma nsum_move_last:
  "k \<notin> set ks \<Longrightarrow> nsum (k # ks) e f idx = nsum (ks @ [k]) e f idx"
proof (induction ks arbitrary: idx)
  case Nil
  show ?case by simp
next
  case (Cons b ks)
  have "nsum (k # b # ks) e f idx = nsum (b # k # ks) e f idx"
    using Cons.prems by (intro nsum_swap2) auto
  also have "\<dots> = (\<Sum>c<e b. nsum (k # ks) e f (idx[b := c]))" by simp
  also have "\<dots> = (\<Sum>c<e b. nsum (ks @ [k]) e f (idx[b := c]))"
    using Cons.prems by (intro sum.cong refl Cons.IH) auto
  finally show ?case by simp
qed

lemma nsum_pull:
  "k \<notin> set ks2 \<Longrightarrow> nsum (ks1 @ k # ks2) e f idx = nsum (ks1 @ ks2) e (nsum [k] e f) idx"
proof -
  assume k: "k \<notin> set ks2"
  have "nsum (ks1 @ k # ks2) e f idx = nsum ks1 e (nsum (k # ks2) e f) idx"
    by (rule nsum_append)
  also have "\<dots> = nsum ks1 e (nsum (ks2 @ [k]) e f) idx"
    using nsum_move_last[OF k] by (intro nsum_cong) auto
  also have "\<dots> = nsum ks1 e (nsum ks2 e (nsum [k] e f)) idx"
    by (intro nsum_cong) (auto simp: nsum_append)
  finally show ?thesis by (simp add: nsum_append)
qed

lemma nsum_rev: "distinct ks \<Longrightarrow> nsum (rev ks) e f idx = nsum ks e f idx"
proof (induction ks arbitrary: f idx)
  case Nil
  show ?case by simp
next
  case (Cons k ks)
  have "nsum (rev (k # ks)) e f idx = nsum (rev ks) e (nsum [k] e f) idx"
    by (simp add: nsum_append)
  also have "\<dots> = nsum ks e (nsum [k] e f) idx"
    using Cons by simp
  also have "\<dots> = nsum (ks @ [k]) e f idx"
    by (simp add: nsum_append)
  also have "\<dots> = nsum (k # ks) e f idx"
    using Cons.prems by (intro nsum_move_last[symmetric]) auto
  finally show ?case .
qed

lemma nsum_unit: "e k = 1 \<Longrightarrow> k < length idx \<Longrightarrow> idx ! k = 0 \<Longrightarrow> nsum [k] e f idx = f idx"
proof -
  assume a: "e k = 1" "k < length idx" "idx ! k = 0"
  have "idx[k := 0] = idx" using a(2,3) by (metis list_update_id)
  then show ?thesis using a(1) by (simp add: lessThan_Suc)
qed

lemma sum_list_concat_map:
  "sum_list (concat (map h xs)) = sum_list (map (\<lambda>x. sum_list (h x)) xs)"
  by (induction xs) simp_all

lemma sum_list_all_indices_Cons:
  "sum_list (map g (all_indices (n # ns))) = (\<Sum>c<n. sum_list (map (\<lambda>xs. g (c # xs)) (all_indices ns)))"
proof -
  have "sum_list (map g (all_indices (n # ns)))
      = sum_list (map (\<lambda>c. sum_list (map (\<lambda>xs. g (c # xs)) (all_indices ns))) [0..<n])"
    by (simp add: all_indices.simps map_concat sum_list_concat_map comp_def)
  then show ?thesis by (simp add: sum_list_upt_sum)
qed

lemma sum_list_all_indices_nsum:
  "sum_list (map (\<lambda>xs. f (scatter idx ks xs)) (all_indices (map e ks))) = nsum ks e f idx"
proof (induction ks arbitrary: idx)
  case Nil
  show ?case by (simp add: all_indices.simps)
next
  case (Cons k ks)
  show ?case
    by (simp add: sum_list_all_indices_Cons Cons.IH)
qed

lemma sum_upt_all_indices:
  "(\<Sum>s<prod_list ns. g s) = sum_list (map (\<lambda>xs. g (ravel ns xs)) (all_indices ns))"
proof -
  have "sum_list (map (\<lambda>xs. g (ravel ns xs)) (all_indices ns))
        = sum_list (map g (map (ravel ns) (all_indices ns)))"
    by (simp add: comp_def)
  also have "\<dots> = sum_list (map g [0..<prod_list ns])"
    by (simp only: map_ravel_all_indices)
  finally show ?thesis by (simp add: sum_list_upt_sum)
qed

lemma length_scatter [simp]: "length (scatter idx ks xs) = length idx"
  by (induction idx ks xs rule: scatter.induct) simp_all

lemma nth_scatter:
  "distinct ks \<Longrightarrow> length xs = length ks \<Longrightarrow> \<forall>k\<in>set ks. k < length idx \<Longrightarrow>
     scatter idx ks xs ! a = (if a \<in> set ks then xs ! index_of ks a else idx ! a)"
proof (induction idx ks xs rule: scatter.induct)
  case (1 idx k ks c xs)
  then show ?case by (auto simp: index_of_def)
qed (simp_all)

lemma nsum_cong_reach:
  assumes "\<And>jdx. length jdx = length idx \<Longrightarrow> (\<forall>a<length idx. a \<notin> set ks \<longrightarrow> jdx ! a = idx ! a) \<Longrightarrow>
             (\<forall>a\<in>set ks. a < length idx \<longrightarrow> jdx ! a < e a) \<Longrightarrow> f jdx = g jdx"
  shows "nsum ks e f idx = nsum ks e g idx"
  using assms
proof (induction ks arbitrary: idx)
  case Nil
  then show ?case by simp
next
  case (Cons k ks)
  have "nsum ks e f (idx[k := c]) = nsum ks e g (idx[k := c])" if c: "c < e k" for c
  proof (rule Cons.IH)
    fix jdx
    assume l: "length jdx = length (idx[k := c])"
      and o: "\<forall>a<length (idx[k := c]). a \<notin> set ks \<longrightarrow> jdx ! a = idx[k := c] ! a"
      and i: "\<forall>a\<in>set ks. a < length (idx[k := c]) \<longrightarrow> jdx ! a < e a"
    show "f jdx = g jdx"
    proof (rule Cons.prems)
      show "length jdx = length idx" using l by simp
      show "\<forall>a<length idx. a \<notin> set (k # ks) \<longrightarrow> jdx ! a = idx ! a"
        using o by auto
      show "\<forall>a\<in>set (k # ks). a < length idx \<longrightarrow> jdx ! a < e a"
      proof (intro ballI impI)
        fix a assume a: "a \<in> set (k # ks)" "a < length idx"
        show "jdx ! a < e a"
        proof (cases "a \<in> set ks")
          case True
          then show ?thesis using i a by simp
        next
          case False
          then have "a = k" using a by simp
          then show ?thesis using o False a c by simp
        qed
      qed
    qed
  qed
  then show ?case by simp
qed

lemma broadcast_index_length [simp]:
  "length idx = length ns \<Longrightarrow> length (broadcast_index ns idx) = length ns"
  by (simp add: broadcast_index_def)

lemma broadcast_index_nth:
  "length idx = length ns \<Longrightarrow> k < length ns \<Longrightarrow>
     broadcast_index ns idx ! k = (if ns ! k = 1 then 0 else idx ! k)"
  by (simp add: broadcast_index_def)

lemma bvalid_broadcast_index: "bvalid ns idx \<Longrightarrow> valid_index ns (broadcast_index ns idx)"
  by (rule valid_indexI) (auto simp: bvalid_def broadcast_index_nth)

lemma valid_bvalid: "valid_index ns idx \<Longrightarrow> bvalid ns idx"
  by (simp add: bvalid_def valid_index_length valid_index_nth)

lemma broadcast_index_valid: "valid_index ns idx \<Longrightarrow> broadcast_index ns idx = idx"
proof (rule nth_equalityI)
  assume v: "valid_index ns idx"
  show "length (broadcast_index ns idx) = length idx"
    using valid_index_length[OF v] by simp
  fix k assume "k < length (broadcast_index ns idx)"
  then have k: "k < length ns" using valid_index_length[OF v] by simp
  show "broadcast_index ns idx ! k = idx ! k"
    using valid_index_nth[OF v k] k valid_index_length[OF v] by (simp add: broadcast_index_nth)
qed

lemma bget_valid: "valid_index (sizes t) idx \<Longrightarrow> bget t idx = elem t idx"
  by (simp add: bget_def broadcast_index_valid)

lemma bget_tabulate: "bvalid ns idx \<Longrightarrow> bget (tabulate ns f) idx = f (broadcast_index ns idx)"
  by (simp add: bget_def elem_tabulate bvalid_broadcast_index)

lemma compatible_length: "compatible as bs \<Longrightarrow> length as = length bs"
  by (simp add: compatible_def list_all2_lengthD)

lemma compatible_nth: "compatible as bs \<Longrightarrow> k < length as \<Longrightarrow> as ! k = bs ! k \<or> as ! k = 1 \<or> bs ! k = 1"
  unfolding compatible_def by (drule list_all2_nthD[where p = k]) auto

lemma length_broadcast_sizes [simp]: "length (broadcast_sizes as bs) = min (length as) (length bs)"
  by (simp add: broadcast_sizes_def)

lemma broadcast_sizes_nth:
  "k < length as \<Longrightarrow> k < length bs \<Longrightarrow> broadcast_sizes as bs ! k = (if as ! k = 1 then bs ! k else as ! k)"
  by (simp add: broadcast_sizes_def)

lemma valid_broadcast_bvalid_left:
  assumes "compatible as bs" "valid_index (broadcast_sizes as bs) idx"
  shows "bvalid as idx"
  unfolding bvalid_def
proof (intro conjI allI impI)
  show "length idx = length as"
    using valid_index_length[OF assms(2)] compatible_length[OF assms(1)] by simp
  fix k assume k: "k < length as"
  have "idx ! k < broadcast_sizes as bs ! k"
    using valid_index_nth[OF assms(2), of k] k compatible_length[OF assms(1)] by simp
  then show "as ! k = 1 \<or> idx ! k < as ! k"
    using k compatible_length[OF assms(1)] by (auto simp: broadcast_sizes_nth split: if_splits)
qed

lemma valid_broadcast_bvalid_right:
  assumes "compatible as bs" "valid_index (broadcast_sizes as bs) idx"
  shows "bvalid bs idx"
  unfolding bvalid_def
proof (intro conjI allI impI)
  show "length idx = length bs"
    using valid_index_length[OF assms(2)] compatible_length[OF assms(1)] by simp
  fix k assume k: "k < length bs"
  have "idx ! k < broadcast_sizes as bs ! k"
    using valid_index_nth[OF assms(2), of k] k compatible_length[OF assms(1)] by simp
  then show "bs ! k = 1 \<or> idx ! k < bs ! k"
    using k compatible_length[OF assms(1)] compatible_nth[OF assms(1), of k]
    by (auto simp: broadcast_sizes_nth split: if_splits)
qed

lemma mul_bget:
  assumes "compatible (sizes a) (sizes b)"
  shows "mul a b = Inr (tabulate (broadcast_sizes (sizes a) (sizes b)) (\<lambda>idx. bget a idx * bget b idx))"
  using mul_same_rank[OF assms] by (simp add: bget_def)

lemma elem_sum_keep:
  assumes "valid_index ((sizes t)[k := 1]) idx"
  shows "elem (sum_keep t k) idx = nsum [k] (\<lambda>a. sizes t ! a) (elem t) idx"
  unfolding sum_keep_def using assms by (simp add: elem_tabulate sum_list_upt_sum)

lemma sizes_sum_keep [simp]: "sizes (sum_keep t k) = (sizes t)[k := 1]"
  by (simp add: sum_keep_def)

lemma rank_sum_keep [simp]: "rank (sum_keep t k) = rank t"
  by (simp add: rank_def)

lemma wf_sum_keep [simp]: "wf (sum_keep t k)"
  by (simp add: sum_keep_def)

lemma sizes_fold_sum_keep:
  "length (sizes (fold (\<lambda>k acc. sum_keep acc k) ks t)) = length (sizes t) \<and>
   (\<forall>a<length (sizes t). sizes (fold (\<lambda>k acc. sum_keep acc k) ks t) ! a
      = (if a \<in> set ks then 1 else sizes t ! a))"
  by (induction ks arbitrary: t) (auto simp: nth_list_update)

lemma elem_fold_sum_keep:
  assumes "distinct ks" "\<forall>k\<in>set ks. k < rank t"
    "valid_index (sizes (fold (\<lambda>k acc. sum_keep acc k) ks t)) idx"
  shows "elem (fold (\<lambda>k acc. sum_keep acc k) ks t) idx
           = nsum (rev ks) (\<lambda>a. sizes t ! a) (elem t) idx"
  using assms
proof (induction ks arbitrary: t)
  case Nil
  then show ?case by simp
next
  case (Cons k ks)
  let ?t' = "sum_keep t k"
  let ?F = "fold (\<lambda>k acc. sum_keep acc k) ks ?t'"
  have v: "valid_index (sizes ?F) idx" using Cons.prems(3) by simp
  have d: "distinct ks" "k \<notin> set ks" "k < rank t" "\<forall>k\<in>set ks. k < rank ?t'"
    using Cons.prems(1,2) by auto
  have li: "length idx = rank t"
    using valid_index_length[OF v] sizes_fold_sum_keep[of ks ?t'] by (simp add: rank_def)
  have szF: "\<And>a. a < rank t \<Longrightarrow> sizes ?F ! a = (if a \<in> set ks then 1 else (sizes t)[k := 1] ! a)"
    using sizes_fold_sum_keep[of ks ?t'] by (simp add: rank_def)
  have "elem ?F idx = nsum (rev ks) (\<lambda>a. sizes ?t' ! a) (elem ?t') idx"
    by (rule Cons.IH[OF d(1) d(4) v])
  also have "\<dots> = nsum (rev ks) (\<lambda>a. sizes t ! a) (elem ?t') idx"
  proof (rule nsum_cong)
    fix a assume "a \<in> set (rev ks)"
    then have "a \<noteq> k" using d(2) by auto
    then show "sizes ?t' ! a = sizes t ! a" by simp
  qed simp
  also have "\<dots> = nsum (rev ks) (\<lambda>a. sizes t ! a) (nsum [k] (\<lambda>a. sizes t ! a) (elem t)) idx"
  proof (rule nsum_cong_reach)
    fix jdx
    assume l: "length jdx = length idx"
      and o: "\<forall>a<length idx. a \<notin> set (rev ks) \<longrightarrow> jdx ! a = idx ! a"
      and i: "\<forall>a\<in>set (rev ks). a < length idx \<longrightarrow> jdx ! a < sizes t ! a"
    have "valid_index ((sizes t)[k := 1]) jdx"
    proof (rule valid_indexI)
      show "length jdx = length ((sizes t)[k := 1])" using l li by (simp add: rank_def)
      fix a assume "a < length ((sizes t)[k := 1])"
      then have a: "a < rank t" by (simp add: rank_def)
      show "jdx ! a < (sizes t)[k := 1] ! a"
      proof (cases "a \<in> set ks")
        case True
        then have "a \<noteq> k" using d(2) by auto
        moreover have "jdx ! a < sizes t ! a" using i a li True by simp
        ultimately show ?thesis by simp
      next
        case False
        then have "jdx ! a = idx ! a" using o a li by simp
        moreover have "idx ! a < sizes ?F ! a"
          using valid_index_nth[OF v, of a] a sizes_fold_sum_keep[of ks ?t'] by (simp add: rank_def)
        ultimately show ?thesis using szF[OF a] False by simp
      qed
    qed
    then show "elem ?t' jdx = nsum [k] (\<lambda>a. sizes t ! a) (elem t) jdx"
      by (rule elem_sum_keep)
  qed
  also have "\<dots> = nsum (rev (k # ks)) (\<lambda>a. sizes t ! a) (elem t) idx"
    by (simp add: nsum_append)
  finally show ?case by simp
qed

lemma dim_list_to_bitset_single:
  "i < n \<Longrightarrow> dim_list_to_bitset [int i] n = Inr ((replicate n False)[i := True])"
proof -
  assume i: "i < n"
  then have "max n 1 = n" by simp
  then show ?thesis using i by (simp add: dim_list_to_bitset_def maybe_wrap_dim_nat)
qed

lemma fold_masked_id:
  "\<forall>k\<in>set ks. \<not> msk ! k \<Longrightarrow> fold (\<lambda>k acc. if msk ! k then f acc k else acc) ks t = t"
  by (induction ks arbitrary: t) simp_all

lemma upt_split: "i < n \<Longrightarrow> [0..<n] = [0..<i] @ i # [Suc i..<n]"
proof -
  assume i: "i < n"
  have "[0..<i + (n - i)] = [0..<i] @ [i..<i + (n - i)]"
    by (rule upt_add_eq_append) simp
  moreover have "[i..<n] = i # [Suc i..<n]"
    using i by (rule upt_conv_Cons)
  ultimately show ?thesis using i by simp
qed

lemma fold_single_mask:
  assumes "i < n"
  shows "fold (\<lambda>k acc. if (replicate n False)[i := True] ! k then f acc k else acc) [0..<n] t = f t i"
proof -
  have "fold (\<lambda>k acc. if (replicate n False)[i := True] ! k then f acc k else acc) [0..<i] t = t"
    using assms by (intro fold_masked_id) (simp add: nth_list_update)
  moreover have "fold (\<lambda>k acc. if (replicate n False)[i := True] ! k then f acc k else acc) [Suc i..<n] (f t i) = f t i"
    using assms by (intro fold_masked_id) (simp add: nth_list_update)
  ultimately show ?thesis
    using assms by (simp add: upt_split[OF assms])
qed

lemma drop_axes_Cons: "drop_axes (b # bs) (x # xs) = (if b then drop_axes bs xs else x # drop_axes bs xs)"
  by (simp add: drop_axes_def)

lemma drop_axes_False: "drop_axes (replicate (length xs) False) xs = xs"
  by (induction xs) (simp_all add: drop_axes_Cons, simp add: drop_axes_def)

lemma drop_axes_single:
  "i < length xs \<Longrightarrow> drop_axes ((replicate (length xs) False)[i := True]) xs = remove_nth i xs"
proof (induction xs arbitrary: i)
  case Nil
  then show ?case by simp
next
  case (Cons x xs)
  show ?case
  proof (cases i)
    case 0
    then show ?thesis by (simp add: drop_axes_Cons drop_axes_False remove_nth_def)
  next
    case (Suc j)
    then show ?thesis using Cons by (simp add: drop_axes_Cons remove_nth_def)
  qed
qed

lemma sum_dim_nat:
  assumes "i < rank t"
  shows "sum_dim t (int i) keepdim =
     Inr (if keepdim then sum_keep t i else Tensor (remove_nth i (sizes t)) (data (sum_keep t i)))"
proof -
  have "remove_nth i ((sizes t)[i := 1]) = remove_nth i (sizes t)"
    by (simp add: remove_nth_def)
  moreover have "drop_axes ((replicate (rank t) False)[i := True]) ((sizes t)[i := 1])
                  = remove_nth i ((sizes t)[i := 1])"
    using drop_axes_single[of i "(sizes t)[i := 1]"] assms by (simp add: rank_def)
  ultimately show ?thesis
    using assms
    by (simp add: sum_dim_def sum_dimlist_def dim_list_to_bitset_single Let_def fold_single_mask)
qed

section \<open>Summing an axis that the other operand broadcasts\<close>

lemma broadcast_index_update_unit:
  assumes "ns ! k = 1" "length idx = length ns"
  shows "broadcast_index ns (idx[k := c]) = broadcast_index ns idx"
proof (rule nth_equalityI)
  show "length (broadcast_index ns (idx[k := c])) = length (broadcast_index ns idx)"
    using assms by simp
  fix a assume "a < length (broadcast_index ns (idx[k := c]))"
  then have a: "a < length ns" using assms by simp
  show "broadcast_index ns (idx[k := c]) ! a = broadcast_index ns idx ! a"
    using assms a by (cases "a = k") (simp_all add: broadcast_index_nth)
qed

lemma bget_update_unit:
  "sizes t ! k = 1 \<Longrightarrow> length idx = rank t \<Longrightarrow> bget t (idx[k := c]) = bget t idx"
  by (simp add: bget_def broadcast_index_update_unit rank_def)

lemma compatible_update_left:
  "compatible as bs \<Longrightarrow> compatible (as[k := 1]) bs"
  unfolding compatible_def list_all2_conv_all_nth
  by (metis length_list_update nth_list_update_eq nth_list_update_neq)

lemma compatible_commute: "compatible as bs \<Longrightarrow> compatible bs as"
  unfolding compatible_def list_all2_conv_all_nth by auto

lemma broadcast_sizes_commute: "compatible as bs \<Longrightarrow> broadcast_sizes as bs = broadcast_sizes bs as"
proof (rule nth_equalityI)
  assume c: "compatible as bs"
  show "length (broadcast_sizes as bs) = length (broadcast_sizes bs as)" by simp
  fix k assume "k < length (broadcast_sizes as bs)"
  then have k: "k < length as" "k < length bs" by simp_all
  show "broadcast_sizes as bs ! k = broadcast_sizes bs as ! k"
    using compatible_nth[OF c k(1)] k by (auto simp: broadcast_sizes_nth)
qed

lemma bget_sum_keep:
  assumes k: "k < rank l" and bv: "bvalid ((sizes l)[k := 1]) j"
  shows "bget (sum_keep l k) j = (\<Sum>c\<in>{..<sizes l ! k}. bget l (j[k := c]))"
proof -
  let ?L = "sizes l"
  have lj: "length j = length ?L" using bv by (simp add: bvalid_def)
  have kl: "k < length ?L" using k by (simp add: rank_def)
  have "bget (sum_keep l k) j = elem (sum_keep l k) (broadcast_index (?L[k := 1]) j)"
    by (simp add: bget_def)
  also have "\<dots> = nsum [k] (\<lambda>a. ?L ! a) (elem l) (broadcast_index (?L[k := 1]) j)"
    by (rule elem_sum_keep) (rule bvalid_broadcast_index[OF bv])
  also have "\<dots> = (\<Sum>c\<in>{..<?L ! k}. elem l ((broadcast_index (?L[k := 1]) j)[k := c]))"
    by simp
  also have "\<dots> = (\<Sum>c\<in>{..<?L ! k}. bget l (j[k := c]))"
  proof (rule sum.cong[OF refl])
    fix c assume "c \<in> {..<?L ! k}"
    then have c: "c < ?L ! k" by simp
    have "(broadcast_index (?L[k := 1]) j)[k := c] = broadcast_index ?L (j[k := c])"
    proof (rule nth_equalityI)
      show "length ((broadcast_index (?L[k := 1]) j)[k := c]) = length (broadcast_index ?L (j[k := c]))"
        using lj by simp
      fix a assume "a < length ((broadcast_index (?L[k := 1]) j)[k := c])"
      then have a: "a < length ?L" using lj by simp
      show "(broadcast_index (?L[k := 1]) j)[k := c] ! a = broadcast_index ?L (j[k := c]) ! a"
        using a lj c kl by (cases "a = k") (auto simp: broadcast_index_nth nth_list_update)
    qed
    then show "elem l ((broadcast_index (?L[k := 1]) j)[k := c]) = bget l (j[k := c])"
      by (simp add: bget_def)
  qed
  finally show ?thesis .
qed

lemma absorb_left:
  fixes l r :: "'a::comm_semiring_1 tensor"
  assumes sd: "distinct sd" "k \<in> set sd" "\<forall>a\<in>set sd. a < d"
    and rk: "rank l = d" "rank r = d"
    and cp: "compatible (sizes l) (sizes r)"
    and rk1: "sizes r ! k = 1"
    and idx: "length idx = d" "\<forall>a<d. a \<notin> set sd \<longrightarrow> idx ! a < broadcast_sizes (sizes l) (sizes r) ! a"
  shows "nsum sd (\<lambda>a. broadcast_sizes (sizes l) (sizes r) ! a) (\<lambda>j. bget l j * bget r j) idx
       = nsum sd (\<lambda>a. broadcast_sizes (sizes (sum_keep l k)) (sizes r) ! a)
           (\<lambda>j. bget (sum_keep l k) j * bget r j) idx"
proof -
  define e where "e = (\<lambda>a. broadcast_sizes (sizes l) (sizes r) ! a)"
  define e' where "e' = (\<lambda>a. broadcast_sizes (sizes (sum_keep l k)) (sizes r) ! a)"
  define f where "f = (\<lambda>j. bget l j * bget r j)"
  define f' where "f' = (\<lambda>j. bget (sum_keep l k) j * bget r j)"
  let ?L = "sizes l" and ?R = "sizes r"
  have kd: "k < d" using sd by auto
  have len: "length ?L = d" "length ?R = d" using rk by (simp_all add: rank_def)
  obtain ks1 ks2 where split: "sd = ks1 @ k # ks2"
    using sd(2) by (meson split_list)
  have nk: "k \<notin> set ks1" "k \<notin> set ks2" using sd(1) split by auto
  have ek: "e k = ?L ! k"
    using kd len rk1 by (simp add: e_def broadcast_sizes_nth)
  have e'k: "e' k = 1"
    using kd len rk1 by (simp add: e'_def broadcast_sizes_nth)
  have e'a: "e' a = e a" if "a \<noteq> k" "a < d" for a
    using that len by (simp add: e_def e'_def broadcast_sizes_nth)
  have "nsum sd e f idx = nsum (ks1 @ ks2) e (nsum [k] e f) idx"
    unfolding split by (rule nsum_pull[OF nk(2)])
  also have "\<dots> = nsum (ks1 @ ks2) e (nsum [k] e' f') idx"
  proof (rule nsum_cong_reach)
    fix j
    assume lj: "length j = length idx"
      and o: "\<forall>a<length idx. a \<notin> set (ks1 @ ks2) \<longrightarrow> j ! a = idx ! a"
      and i: "\<forall>a\<in>set (ks1 @ ks2). a < length idx \<longrightarrow> j ! a < e a"
    have ljd: "length j = d" using lj idx(1) by simp
    have bv: "bvalid (?L[k := 1]) j"
      unfolding bvalid_def
    proof (intro conjI allI impI)
      show "length j = length (?L[k := 1])" using ljd len by simp
      fix a assume "a < length (?L[k := 1])"
      then have a: "a < d" using len by simp
      show "?L[k := 1] ! a = 1 \<or> j ! a < ?L[k := 1] ! a"
      proof (cases "a = k")
        case True
        then show ?thesis using kd len by simp
      next
        case False
        have "j ! a < e a"
        proof (cases "a \<in> set (ks1 @ ks2)")
          case True
          then show ?thesis using i a idx(1) by simp
        next
          case False
          then have "a \<notin> set sd" using \<open>a \<noteq> k\<close> split by auto
          then show ?thesis using o idx a False by (simp add: e_def)
        qed
        then show ?thesis
          using False a len by (auto simp: e_def broadcast_sizes_nth split: if_splits)
      qed
    qed
    have "nsum [k] e f j = (\<Sum>c\<in>{..<?L ! k}. bget l (j[k := c]) * bget r (j[k := c]))"
      by (simp add: ek f_def)
    also have "\<dots> = (\<Sum>c\<in>{..<?L ! k}. bget l (j[k := c]) * bget r j)"
      using rk1 ljd rk by (simp add: bget_update_unit)
    also have "\<dots> = (\<Sum>c\<in>{..<?L ! k}. bget l (j[k := c])) * bget r j"
      by (simp add: sum_distrib_right)
    also have "\<dots> = bget (sum_keep l k) j * bget r j"
      using bget_sum_keep[OF _ bv] kd rk by simp
    also have "\<dots> = bget (sum_keep l k) (j[k := 0]) * bget r (j[k := 0])"
      using rk1 ljd rk kd len by (simp add: bget_update_unit)
    also have "\<dots> = nsum [k] e' f' j"
      by (simp add: e'k f'_def)
    finally show "nsum [k] e f j = nsum [k] e' f' j" .
  qed
  also have "\<dots> = nsum (ks1 @ ks2) e' (nsum [k] e' f') idx"
  proof (rule nsum_cong)
    fix a assume "a \<in> set (ks1 @ ks2)"
    then have "a \<noteq> k" "a < d" using nk sd(3) split by auto
    then show "e a = e' a" using e'a by simp
  qed simp
  also have "\<dots> = nsum sd e' f' idx"
    unfolding split by (rule nsum_pull[OF nk(2), symmetric])
  finally show ?thesis by (simp add: e_def e'_def f_def f'_def)
qed

lemma absorb_left':
  fixes l r :: "'a::comm_semiring_1 tensor"
  assumes "distinct sd" "k \<in> set sd" "\<forall>a\<in>set sd. a < d" "rank l = d" "rank r = d"
    "compatible (sizes l) (sizes r)" "sizes r ! k = 1" "length idx = d"
    "\<forall>a<d. a \<notin> set sd \<longrightarrow> idx ! a < broadcast_sizes (sizes l) (sizes r) ! a"
  shows "contraction sd l r idx = contraction sd (sum_keep l k) r idx"
  unfolding contraction_def by (rule absorb_left[OF assms])

lemma contraction_commute:
  fixes l r :: "'a::comm_semiring_1 tensor"
  assumes "compatible (sizes l) (sizes r)"
  shows "contraction sd l r idx = contraction sd r l idx"
  unfolding contraction_def broadcast_sizes_commute[OF assms]
  by (rule nsum_cong) (simp_all add: mult.commute)

lemma absorb_right':
  fixes l r :: "'a::comm_semiring_1 tensor"
  assumes "distinct sd" "k \<in> set sd" "\<forall>a\<in>set sd. a < d" "rank l = d" "rank r = d"
    "compatible (sizes l) (sizes r)" "sizes l ! k = 1" "length idx = d"
    "\<forall>a<d. a \<notin> set sd \<longrightarrow> idx ! a < broadcast_sizes (sizes l) (sizes r) ! a"
  shows "contraction sd l r idx = contraction sd l (sum_keep r k) idx"
proof -
  have c: "compatible (sizes r) (sizes l)" by (rule compatible_commute[OF assms(6)])
  have "contraction sd l r idx = contraction sd r l idx"
    by (rule contraction_commute[OF assms(6)])
  also have "\<dots> = contraction sd (sum_keep r k) l idx"
    using assms c by (intro absorb_left') (simp_all add: broadcast_sizes_commute[OF c])
  also have "\<dots> = contraction sd l (sum_keep r k) idx"
    using compatible_update_left[OF c] by (intro contraction_commute) simp
  finally show ?thesis .
qed

lemma absorb_left_list:
  fixes l r :: "'a::comm_semiring_1 tensor"
  assumes "distinct sd" "set ks \<subseteq> set sd" "\<forall>a\<in>set sd. a < d" "rank l = d" "rank r = d"
    "compatible (sizes l) (sizes r)" "\<forall>k\<in>set ks. sizes r ! k = 1" "length idx = d"
    "\<forall>a<d. a \<notin> set sd \<longrightarrow> idx ! a < broadcast_sizes (sizes l) (sizes r) ! a"
  shows "contraction sd l r idx = contraction sd (fold (\<lambda>k acc. sum_keep acc k) ks l) r idx"
  using assms
proof (induction ks arbitrary: l)
  case Nil
  show ?case by simp
next
  case (Cons k ks)
  have k: "k \<in> set sd" "sizes r ! k = 1" using Cons.prems by auto
  have len: "length (sizes l) = d" "length (sizes r) = d" using Cons.prems by (simp_all add: rank_def)
  have 1: "contraction sd l r idx = contraction sd (sum_keep l k) r idx"
    using Cons.prems k by (intro absorb_left'[where d = d]) simp_all
  have 2: "contraction sd (sum_keep l k) r idx
           = contraction sd (fold (\<lambda>k acc. sum_keep acc k) ks (sum_keep l k)) r idx"
  proof (rule Cons.IH)
    show "compatible (sizes (sum_keep l k)) (sizes r)"
      using compatible_update_left[OF Cons.prems(6)] by simp
    show "\<forall>a<d. a \<notin> set sd \<longrightarrow> idx ! a < broadcast_sizes (sizes (sum_keep l k)) (sizes r) ! a"
    proof (intro allI impI)
      fix a assume a: "a < d" "a \<notin> set sd"
      then have "a \<noteq> k" using k by auto
      then have "broadcast_sizes (sizes (sum_keep l k)) (sizes r) ! a = broadcast_sizes (sizes l) (sizes r) ! a"
        using a len by (simp add: broadcast_sizes_nth)
      then show "idx ! a < broadcast_sizes (sizes (sum_keep l k)) (sizes r) ! a"
        using Cons.prems(9) a by simp
    qed
  qed (use Cons.prems in auto)
  show ?case using 1 2 by simp
qed

lemma absorb_right_list:
  fixes l r :: "'a::comm_semiring_1 tensor"
  assumes "distinct sd" "set ks \<subseteq> set sd" "\<forall>a\<in>set sd. a < d" "rank l = d" "rank r = d"
    "compatible (sizes l) (sizes r)" "\<forall>k\<in>set ks. sizes l ! k = 1" "length idx = d"
    "\<forall>a<d. a \<notin> set sd \<longrightarrow> idx ! a < broadcast_sizes (sizes l) (sizes r) ! a"
  shows "contraction sd l r idx = contraction sd l (fold (\<lambda>k acc. sum_keep acc k) ks r) idx"
proof -
  have c: "compatible (sizes r) (sizes l)" by (rule compatible_commute[OF assms(6)])
  have szf: "length (sizes (fold (\<lambda>k acc. sum_keep acc k) ks r)) = length (sizes r)"
    using sizes_fold_sum_keep[of ks r] by simp
  have "contraction sd l r idx = contraction sd r l idx"
    by (rule contraction_commute[OF assms(6)])
  also have "\<dots> = contraction sd (fold (\<lambda>k acc. sum_keep acc k) ks r) l idx"
    using assms c by (intro absorb_left_list[where d = d]) (simp_all add: broadcast_sizes_commute[OF c])
  also have "\<dots> = contraction sd l (fold (\<lambda>k acc. sum_keep acc k) ks r) idx"
  proof (rule contraction_commute)
    show "compatible (sizes (fold (\<lambda>k acc. sum_keep acc k) ks r)) (sizes l)"
      unfolding compatible_def list_all2_conv_all_nth
    proof (intro conjI allI impI)
      show "length (sizes (fold (\<lambda>k acc. sum_keep acc k) ks r)) = length (sizes l)"
        using szf compatible_length[OF c] by simp
      fix a assume "a < length (sizes (fold (\<lambda>k acc. sum_keep acc k) ks r))"
      then have a: "a < length (sizes r)" using szf by simp
      show "sizes (fold (\<lambda>k acc. sum_keep acc k) ks r) ! a = sizes l ! a \<or>
            sizes (fold (\<lambda>k acc. sum_keep acc k) ks r) ! a = 1 \<or> sizes l ! a = 1"
        using sizes_fold_sum_keep[of ks r] a compatible_nth[OF c a] by auto
    qed
  qed
  finally show ?thesis .
qed

section \<open>sumproduct_pair: the classification loop\<close>

lemma loop_result_Nil: "loop_result msk [] st = st"
  by (simp add: loop_result_def)

lemma loop_result_cong:
  assumes "\<forall>i\<in>set axes. sizes (left st) ! i = L ! i \<and> sizes (right st) ! i = R ! i"
  shows "loop_result msk axes st =
      st\<lparr>lro := lro st @ filter (\<lambda>i. \<not> msk ! i \<and> L ! i > 1 \<and> R ! i > 1) axes,
         lo := lo st @ filter (\<lambda>i. \<not> msk ! i \<and> L ! i > 1 \<and> \<not> R ! i > 1) axes,
         ro := ro st @ filter (\<lambda>i. \<not> msk ! i \<and> \<not> L ! i > 1) axes,
         lro_size := lro_size st * prod_list (map (\<lambda>i. L ! i) (filter (\<lambda>i. \<not> msk ! i \<and> L ! i > 1 \<and> R ! i > 1) axes)),
         lo_size := lo_size st * prod_list (map (\<lambda>i. L ! i) (filter (\<lambda>i. \<not> msk ! i \<and> L ! i > 1 \<and> \<not> R ! i > 1) axes)),
         ro_size := ro_size st * prod_list (map (\<lambda>i. R ! i) (filter (\<lambda>i. \<not> msk ! i \<and> \<not> L ! i > 1) axes)),
         sum_size := sum_size st * prod_list (map (\<lambda>i. L ! i) (filter (\<lambda>i. msk ! i \<and> L ! i > 1 \<and> R ! i > 1) axes)),
         left := fold (\<lambda>k acc. sum_keep acc k) (filter (\<lambda>i. msk ! i \<and> L ! i > 1 \<and> \<not> R ! i > 1) axes) (left st),
         right := fold (\<lambda>k acc. sum_keep acc k) (filter (\<lambda>i. msk ! i \<and> \<not> L ! i > 1 \<and> R ! i > 1) axes) (right st)\<rparr>"
proof -
  have f: "\<And>P Q. (\<And>i. i \<in> set axes \<Longrightarrow> P i = Q i) \<Longrightarrow> filter P axes = filter Q axes"
    by (rule filter_cong) auto
  have m: "\<And>g h xs. set xs \<subseteq> set axes \<Longrightarrow> (\<And>i. i \<in> set axes \<Longrightarrow> g i = h i) \<Longrightarrow> map g xs = map h xs"
    by (rule map_cong) auto
  let ?L = "sizes (left st)" and ?R = "sizes (right st)"
  have 1: "filter (\<lambda>i. \<not> msk ! i \<and> ?L ! i > 1 \<and> ?R ! i > 1) axes = filter (\<lambda>i. \<not> msk ! i \<and> L ! i > 1 \<and> R ! i > 1) axes"
    using assms by (intro f) auto
  have 2: "filter (\<lambda>i. \<not> msk ! i \<and> ?L ! i > 1 \<and> \<not> ?R ! i > 1) axes = filter (\<lambda>i. \<not> msk ! i \<and> L ! i > 1 \<and> \<not> R ! i > 1) axes"
    using assms by (intro f) auto
  have 3: "filter (\<lambda>i. \<not> msk ! i \<and> \<not> ?L ! i > 1) axes = filter (\<lambda>i. \<not> msk ! i \<and> \<not> L ! i > 1) axes"
    using assms by (intro f) auto
  have 4: "filter (\<lambda>i. msk ! i \<and> ?L ! i > 1 \<and> ?R ! i > 1) axes = filter (\<lambda>i. msk ! i \<and> L ! i > 1 \<and> R ! i > 1) axes"
    using assms by (intro f) auto
  have 5: "filter (\<lambda>i. msk ! i \<and> ?L ! i > 1 \<and> \<not> ?R ! i > 1) axes = filter (\<lambda>i. msk ! i \<and> L ! i > 1 \<and> \<not> R ! i > 1) axes"
    using assms by (intro f) auto
  have 6: "filter (\<lambda>i. msk ! i \<and> \<not> ?L ! i > 1 \<and> ?R ! i > 1) axes = filter (\<lambda>i. msk ! i \<and> \<not> L ! i > 1 \<and> R ! i > 1) axes"
    using assms by (intro f) auto
  have 7: "\<And>xs. set xs \<subseteq> set axes \<Longrightarrow> map (\<lambda>i. ?L ! i) xs = map (\<lambda>i. L ! i) xs"
    using assms by (intro m) auto
  have 8: "\<And>xs. set xs \<subseteq> set axes \<Longrightarrow> map (\<lambda>i. ?R ! i) xs = map (\<lambda>i. R ! i) xs"
    using assms by (intro m) auto
  show ?thesis
    unfolding loop_result_def Let_def 1 2 3 4 5 6
    by (simp add: 7 8)
qed

lemma sumproduct_loop_result:
  assumes "distinct axes"
    and "\<forall>i\<in>set axes. i < rank (left st) \<and> i < rank (right st)"
    and "\<forall>i\<in>set axes. sizes (left st) ! i > 1 \<and> sizes (right st) ! i > 1 \<longrightarrow>
            sizes (left st) ! i = sizes (right st) ! i"
  shows "sumproduct_loop msk axes st = Inr (loop_result msk axes st)"
  using assms
proof (induction axes arbitrary: st)
  case Nil
  show ?case by (simp add: loop_result_Nil)
next
  case (Cons i axes)
  let ?L = "sizes (left st)" and ?R = "sizes (right st)"
  have i: "i < rank (left st)" "i < rank (right st)" "i \<notin> set axes" "distinct axes"
    using Cons.prems by auto
  have eq: "?L ! i > 1 \<and> ?R ! i > 1 \<longrightarrow> ?L ! i = ?R ! i"
    using Cons.prems(3) by simp
  obtain st1 where step: "sumproduct_step msk i st = Inr st1"
    and st1: "st1 = loop_result msk [i] st"
    using eq i(1,2)
    by (auto simp: sumproduct_step_def loop_result_def Let_def sum_dim_nat)
  have sz1: "\<forall>j\<in>set axes. sizes (left st1) ! j = ?L ! j \<and> sizes (right st1) ! j = ?R ! j"
  proof
    fix j assume "j \<in> set axes"
    then have "i \<noteq> j" using i(3) by auto
    then show "sizes (left st1) ! j = ?L ! j \<and> sizes (right st1) ! j = ?R ! j"
      by (simp add: st1 loop_result_def Let_def)
  qed
  have rk1: "rank (left st1) = rank (left st)" "rank (right st1) = rank (right st)"
    by (auto simp: st1 loop_result_def Let_def)
  have "sumproduct_loop msk axes st1 = Inr (loop_result msk axes st1)"
  proof (rule Cons.IH[OF i(4)])
    show "\<forall>j\<in>set axes. j < rank (left st1) \<and> j < rank (right st1)"
      using Cons.prems(2) rk1 by simp
    show "\<forall>j\<in>set axes. sizes (left st1) ! j > 1 \<and> sizes (right st1) ! j > 1 \<longrightarrow>
            sizes (left st1) ! j = sizes (right st1) ! j"
      using Cons.prems(3) sz1 by simp
  qed
  moreover have "loop_result msk axes st1 = loop_result msk (i # axes) st"
    unfolding loop_result_cong[OF sz1]
    by (auto simp: st1 loop_result_def Let_def)
  ultimately show ?case using step by simp
qed

section \<open>Permutations, flat offsets and reshape\<close>

lemma ravel_append:
  "length x1 = length n1 \<Longrightarrow>
     ravel (n1 @ n2) (x1 @ x2) = ravel n1 x1 * prod_list n2 + ravel n2 x2"
proof (induction n1 arbitrary: x1)
  case Nil
  then show ?case by simp
next
  case (Cons n n1)
  then obtain i x1' where "x1 = i # x1'" by (cases x1) auto
  then show ?case using Cons by (simp add: algebra_simps)
qed

lemma ravel_unit: "valid_index ns xs \<Longrightarrow> prod_list ns = 1 \<Longrightarrow> ravel ns xs = 0"
  using ravel_less[of xs ns] by (simp add: valid_index_def)

lemma index_of_Nil [simp]: "index_of [] a = 0"
  by (simp add: index_of_def)

lemma index_of_Cons [simp]: "index_of (x # xs) a = (if x = a then 0 else Suc (index_of xs a))"
  by (simp add: index_of_def)

lemma index_of_mem: "a \<in> set xs \<Longrightarrow> index_of xs a < length xs \<and> xs ! index_of xs a = a"
  by (induction xs) auto

lemma index_of_nth: "distinct xs \<Longrightarrow> k < length xs \<Longrightarrow> index_of xs (xs ! k) = k"
  using index_of_mem[of "xs ! k" xs] nth_eq_iff_index_eq[of xs "index_of xs (xs ! k)" k] by auto

lemma index_of_append:
  "index_of (xs @ ys) a = (if a \<in> set xs then index_of xs a else length xs + index_of ys a)"
  by (induction xs) auto

lemma permute_index_nth:
  "a < length p \<Longrightarrow> permute_index p x ! a = x ! index_of p a"
  by (simp add: permute_index_def)

lemma length_permute_index [simp]: "length (permute_index p x) = length p"
  by (simp add: permute_index_def)

lemma is_perm_length: "is_perm p d \<Longrightarrow> length p = d"
  unfolding is_perm_def by (metis card_lessThan distinct_card)

lemma permute_index_map:
  assumes "is_perm p d" "length z = d"
  shows "permute_index p (map ((!) z) p) = z"
proof (rule nth_equalityI)
  show "length (permute_index p (map ((!) z) p)) = length z"
    using assms is_perm_length by simp
  fix a assume "a < length (permute_index p (map ((!) z) p))"
  then have a: "a < d" using assms is_perm_length by simp
  then have "a \<in> set p" using assms by (simp add: is_perm_def)
  then show "permute_index p (map ((!) z) p) ! a = z ! a"
    using index_of_mem[of a p] a is_perm_length[OF assms(1)] by (simp add: permute_index_nth)
qed

lemma inv_perm_is_perm:
  assumes "is_perm p d"
  shows "is_perm (inv_perm p) d"
proof -
  have l: "length p = d" by (rule is_perm_length[OF assms])
  have mem: "\<And>a. a < d \<Longrightarrow> a \<in> set p" using assms by (simp add: is_perm_def)
  have "inj_on (index_of p) {..<d}"
  proof (rule inj_onI)
    fix a b assume ab: "a \<in> {..<d}" "b \<in> {..<d}" "index_of p a = index_of p b"
    have "a \<in> set p" "b \<in> set p" using mem ab(1,2) by simp_all
    then have "p ! index_of p a = a" "p ! index_of p b = b"
      by (simp_all add: index_of_mem)
    then show "a = b" using ab(3) by metis
  qed
  then have d: "distinct (inv_perm p)"
    by (simp add: inv_perm_def distinct_map l atLeast0LessThan)
  have "set (inv_perm p) \<subseteq> {..<d}"
    using index_of_mem mem l by (auto simp: inv_perm_def)
  moreover have "card (set (inv_perm p)) = d"
    using d distinct_card[of "inv_perm p"] l by (simp add: inv_perm_def)
  ultimately have "set (inv_perm p) = {..<d}"
    by (intro card_subset_eq) simp_all
  then show ?thesis using d by (simp add: is_perm_def)
qed

lemma index_of_inv_perm:
  assumes "is_perm p d" "k < d"
  shows "index_of (inv_perm p) k = p ! k"
proof -
  have l: "length p = d" by (rule is_perm_length[OF assms(1)])
  have pk: "p ! k < d" using assms l unfolding is_perm_def by (metis lessThan_iff nth_mem)
  have "inv_perm p ! (p ! k) = k"
    using assms l pk index_of_nth[of p k] by (simp add: inv_perm_def is_perm_def)
  moreover have "distinct (inv_perm p)" "length (inv_perm p) = d"
    using inv_perm_is_perm[OF assms(1)] l by (simp_all add: is_perm_def inv_perm_def)
  ultimately show ?thesis using index_of_nth[of "inv_perm p" "p ! k"] pk by simp
qed

lemma permute_index_inv_perm:
  assumes "is_perm p d" "length idx = d"
  shows "permute_index (inv_perm p) idx = map ((!) idx) p"
proof (rule nth_equalityI)
  have l: "length p = d" by (rule is_perm_length[OF assms(1)])
  show "length (permute_index (inv_perm p) idx) = length (map ((!) idx) p)"
    by (simp add: inv_perm_def)
  fix k assume "k < length (permute_index (inv_perm p) idx)"
  then have k: "k < d" using l by (simp add: inv_perm_def)
  show "permute_index (inv_perm p) idx ! k = map ((!) idx) p ! k"
    using k l index_of_inv_perm[OF assms(1) k] by (simp add: permute_index_nth inv_perm_def)
qed

lemma opermutation_loop_prefix:
  assumes "distinct (pre @ ps)" "\<forall>a\<in>set (pre @ ps). a < d" "length op = d"
    "\<forall>a<d. op ! a = (if a \<in> set pre then int (index_of (pre @ ps) a) else - 1)"
  shows "opermutation_loop (map int ps) (length pre) op
           = Inr (map (\<lambda>a. if a \<in> set (pre @ ps) then int (index_of (pre @ ps) a) else - 1) [0..<d])"
  using assms
proof (induction ps arbitrary: pre op)
  case Nil
  have "op = map (\<lambda>a. if a \<in> set pre then int (index_of pre a) else - 1) [0..<d]"
    using Nil by (intro nth_equalityI) simp_all
  then show ?case by simp
next
  case (Cons q ps)
  have q: "q < d" "q \<notin> set pre" using Cons.prems by auto
  have iq: "index_of (pre @ q # ps) q = length pre"
    using q by (simp add: index_of_append)
  have "opermutation_loop (map int ps) (length (pre @ [q])) (op[q := int (length pre)])
        = Inr (map (\<lambda>a. if a \<in> set ((pre @ [q]) @ ps) then int (index_of ((pre @ [q]) @ ps) a) else - 1) [0..<d])"
  proof (rule Cons.IH)
    show "distinct ((pre @ [q]) @ ps)" using Cons.prems(1) by simp
    show "\<forall>a\<in>set ((pre @ [q]) @ ps). a < d" using Cons.prems(2) by simp
    show "length (op[q := int (length pre)]) = d" using Cons.prems(3) by simp
    show "\<forall>a<d. op[q := int (length pre)] ! a
            = (if a \<in> set (pre @ [q]) then int (index_of ((pre @ [q]) @ ps) a) else - 1)"
      using Cons.prems(3,4) q iq by (auto simp: nth_list_update)
  qed
  then show ?case using q Cons.prems(3) by simp
qed

lemma opermutation_loop_perm:
  assumes "is_perm p d"
  shows "opermutation_loop (map int p) 0 (replicate d (- 1)) = Inr (map int (inv_perm p))"
proof -
  have l: "length p = d" by (rule is_perm_length[OF assms])
  have "opermutation_loop (map int p) (length ([]::nat list)) (replicate d (- 1))
        = Inr (map (\<lambda>a. if a \<in> set ([] @ p) then int (index_of ([] @ p) a) else - 1) [0..<d])"
    using assms by (intro opermutation_loop_prefix) (auto simp: is_perm_def)
  also have "map (\<lambda>a. if a \<in> set ([] @ p) then int (index_of ([] @ p) a) else - 1) [0..<d]
             = map int (inv_perm p)"
    using assms l by (auto simp: inv_perm_def is_perm_def)
  finally show ?thesis by simp
qed

lemma infer_size_loop_nat:
  "infer_size_loop (map int ns) k acc None = Inr (acc * int (prod_list ns), None)"
  by (induction ns arbitrary: k acc) (simp_all add: algebra_simps)

lemma reshape_nat:
  "prod_list ns = numel t \<Longrightarrow> reshape t (map int ns) = Inr (Tensor ns (data t))"
  by (simp add: reshape_def infer_size_def infer_size_loop_nat comp_def)


section \<open>The permute, reshape and batched-multiply pipeline\<close>

lemma prod_list_ones: "\<forall>x\<in>set xs. x = (1::nat) \<Longrightarrow> prod_list xs = 1"
  by (induction xs) simp_all

lemma data_tabulate_ravel:
  "valid_index ns x \<Longrightarrow> data (tabulate ns f) ! ravel ns x = f x"
  using elem_tabulate[of ns x f] by (simp add: elem_def)

lemma valid_index_map:
  assumes "\<forall>k\<in>set ks. idx ! k < ns ! k"
  shows "valid_index (map ((!) ns) ks) (map ((!) idx) ks)"
  using assms by (intro valid_indexI) simp_all

lemma valid_index_zeros:
  "\<forall>n\<in>set ns. 0 < n \<Longrightarrow> valid_index ns (map (\<lambda>_. 0) ns)"
  by (intro valid_indexI) simp_all

lemma reshape3_elem:
  assumes v: "valid_index n1 x1" "valid_index n2 x2" "valid_index n3 x3" "valid_index n4 x4"
    and u: "prod_list n4 = 1"
  shows "elem (Tensor [prod_list n1, prod_list n2, prod_list n3] (data (tabulate (n1 @ n2 @ n3 @ n4) f)))
           [ravel n1 x1, ravel n2 x2, ravel n3 x3] = f (x1 @ x2 @ x3 @ x4)"
proof -
  have l: "length x1 = length n1" "length x2 = length n2" "length x3 = length n3"
    using v by (simp_all add: valid_index_length)
  have "ravel (n1 @ n2 @ n3 @ n4) (x1 @ x2 @ x3 @ x4)
        = ravel n1 x1 * (prod_list n2 * prod_list n3) + (ravel n2 x2 * prod_list n3 + ravel n3 x3)"
    using l u ravel_unit[OF v(4) u] by (simp add: ravel_append)
  moreover have "ravel [prod_list n1, prod_list n2, prod_list n3] [ravel n1 x1, ravel n2 x2, ravel n3 x3]
        = ravel n1 x1 * (prod_list n2 * prod_list n3) + (ravel n2 x2 * prod_list n3 + ravel n3 x3)"
    by simp
  moreover have "valid_index (n1 @ n2 @ n3 @ n4) (x1 @ x2 @ x3 @ x4)"
    using v by (intro valid_index_append)
  ultimately show ?thesis
    using data_tabulate_ravel[of "n1 @ n2 @ n3 @ n4" "x1 @ x2 @ x3 @ x4" f]
    by (simp add: elem_def)
qed

lemma view4_elem:
  assumes v: "valid_index n1 x1" "valid_index n2 x2" "valid_index n3 x3" "valid_index n4 x4"
    and u: "prod_list n3 = 1"
  shows "elem (Tensor (n1 @ n2 @ n3 @ n4) (data (tabulate [prod_list n1, prod_list n2, prod_list n4] g)))
           (x1 @ x2 @ x3 @ x4) = g [ravel n1 x1, ravel n2 x2, ravel n4 x4]"
proof -
  have l: "length x1 = length n1" "length x2 = length n2" "length x3 = length n3"
    using v by (simp_all add: valid_index_length)
  have "ravel (n1 @ n2 @ n3 @ n4) (x1 @ x2 @ x3 @ x4)
        = ravel n1 x1 * (prod_list n2 * prod_list n4) + (ravel n2 x2 * prod_list n4 + ravel n4 x4)"
    using l u ravel_unit[OF v(3) u] by (simp add: ravel_append)
  moreover have "ravel [prod_list n1, prod_list n2, prod_list n4] [ravel n1 x1, ravel n2 x2, ravel n4 x4]
        = ravel n1 x1 * (prod_list n2 * prod_list n4) + (ravel n2 x2 * prod_list n4 + ravel n4 x4)"
    by simp
  moreover have "valid_index [prod_list n1, prod_list n2, prod_list n4] [ravel n1 x1, ravel n2 x2, ravel n4 x4]"
    using v ravel_less by (simp add: valid_index_Cons valid_index_Nil valid_index_def)
  ultimately show ?thesis
    using data_tabulate_ravel[of "[prod_list n1, prod_list n2, prod_list n4]" "[ravel n1 x1, ravel n2 x2, ravel n4 x4]" g]
    by (simp add: elem_def)
qed


lemma perm_reshape3_elem:
  assumes p: "is_perm (g1 @ g2 @ g3 @ g4) (rank t)" and bv: "bvalid (sizes t) j"
    and u: "\<forall>a\<in>set g4. sizes t ! a = 1"
  shows "elem (Tensor [prod_list (map ((!) (sizes t)) g1), prod_list (map ((!) (sizes t)) g2),
                       prod_list (map ((!) (sizes t)) g3)]
            (data (tabulate (map ((!) (sizes t)) (g1 @ g2 @ g3 @ g4))
               (\<lambda>x. elem t (permute_index (g1 @ g2 @ g3 @ g4) x)))))
           [ravel (map ((!) (sizes t)) g1) (map ((!) (broadcast_index (sizes t) j)) g1),
            ravel (map ((!) (sizes t)) g2) (map ((!) (broadcast_index (sizes t) j)) g2),
            ravel (map ((!) (sizes t)) g3) (map ((!) (broadcast_index (sizes t) j)) g3)]
         = bget t j"
proof -
  let ?S = "sizes t" and ?j = "broadcast_index (sizes t) j"
  have v: "valid_index ?S ?j"
    using bv by (rule bvalid_broadcast_index)
  have lj: "length ?j = rank t"
    using valid_index_length[OF v] by (simp add: rank_def)
  have mem: "\<And>a. a \<in> set (g1 @ g2 @ g3 @ g4) \<Longrightarrow> a < length ?S"
    using p by (auto simp: is_perm_def rank_def)
  have vg: "\<And>g. set g \<subseteq> set (g1 @ g2 @ g3 @ g4) \<Longrightarrow> valid_index (map ((!) ?S) g) (map ((!) ?j) g)"
  proof -
    fix g assume "set g \<subseteq> set (g1 @ g2 @ g3 @ g4)"
    then have "\<forall>k\<in>set g. ?j ! k < ?S ! k"
      using mem valid_index_nth[OF v] by blast
    then show "valid_index (map ((!) ?S) g) (map ((!) ?j) g)"
      by (rule valid_index_map)
  qed
  have u1: "prod_list (map ((!) ?S) g4) = 1"
    using u by (intro prod_list_ones) auto
  have "elem (Tensor [prod_list (map ((!) ?S) g1), prod_list (map ((!) ?S) g2), prod_list (map ((!) ?S) g3)]
            (data (tabulate (map ((!) ?S) g1 @ map ((!) ?S) g2 @ map ((!) ?S) g3 @ map ((!) ?S) g4)
               (\<lambda>x. elem t (permute_index (g1 @ g2 @ g3 @ g4) x)))))
           [ravel (map ((!) ?S) g1) (map ((!) ?j) g1), ravel (map ((!) ?S) g2) (map ((!) ?j) g2),
            ravel (map ((!) ?S) g3) (map ((!) ?j) g3)]
        = elem t (permute_index (g1 @ g2 @ g3 @ g4) (map ((!) ?j) g1 @ map ((!) ?j) g2 @ map ((!) ?j) g3 @ map ((!) ?j) g4))"
  proof (rule reshape3_elem)
    show "prod_list (map ((!) ?S) g4) = 1"
      by (rule u1)
  qed (rule vg, auto)+
  also have "map ((!) ?j) g1 @ map ((!) ?j) g2 @ map ((!) ?j) g3 @ map ((!) ?j) g4
             = map ((!) ?j) (g1 @ g2 @ g3 @ g4)"
    by simp
  also have "permute_index (g1 @ g2 @ g3 @ g4) (map ((!) ?j) (g1 @ g2 @ g3 @ g4)) = ?j"
    using p lj by (rule permute_index_map)
  finally show ?thesis
    by (simp add: bget_def)
qed

lemma scatter_keep:
  assumes "length idx = length S" "distinct ks" "length xs = length ks" "\<forall>k\<in>set ks. k < length S"
    "a < length S" "a \<notin> set ks" "idx ! a < S ! a"
  shows "broadcast_index S (scatter idx ks xs) ! a = idx ! a"
  using assms by (simp add: broadcast_index_nth nth_scatter)

lemma scatter_summed:
  assumes l: "length idx = length S" and d: "distinct ks" and m: "\<forall>k\<in>set ks. k < length S"
    and v: "valid_index (map ((!) S) ks) xs"
  shows "map ((!) (broadcast_index S (scatter idx ks xs))) ks = xs"
proof (rule nth_equalityI)
  have lx: "length xs = length ks"
    using valid_index_length[OF v] by simp
  show "length (map ((!) (broadcast_index S (scatter idx ks xs))) ks) = length xs"
    using lx by simp
  fix i assume "i < length (map ((!) (broadcast_index S (scatter idx ks xs))) ks)"
  then have i: "i < length ks" by simp
  have x: "xs ! i < S ! (ks ! i)"
    using valid_index_nth[OF v, of i] i by simp
  have "scatter idx ks xs ! (ks ! i) = xs ! i"
    using d lx m l i by (simp add: nth_scatter index_of_nth)
  then show "map ((!) (broadcast_index S (scatter idx ks xs))) ks ! i = xs ! i"
    using i m l x by (simp add: broadcast_index_nth)
qed

lemma bvalid_scatter:
  assumes l: "length idx = length S" and d: "distinct ks" and m: "\<forall>k\<in>set ks. k < length S"
    and v: "valid_index (map ((!) S) ks) xs"
    and o: "\<forall>a<length S. a \<notin> set ks \<longrightarrow> S ! a = 1 \<or> idx ! a < S ! a"
  shows "bvalid S (scatter idx ks xs)"
  unfolding bvalid_def
proof (intro conjI allI impI)
  have lx: "length xs = length ks"
    using valid_index_length[OF v] by simp
  show "length (scatter idx ks xs) = length S"
    using l by simp
  fix a assume a: "a < length S"
  show "S ! a = 1 \<or> scatter idx ks xs ! a < S ! a"
  proof (cases "a \<in> set ks")
    case True
    have "index_of ks a < length ks" "ks ! index_of ks a = a"
      using index_of_mem[OF True] by simp_all
    then have "xs ! index_of ks a < S ! a"
      using valid_index_nth[OF v, of "index_of ks a"] by simp
    then show ?thesis
      using True d lx m l by (simp add: nth_scatter)
  next
    case False
    then show ?thesis
      using o a d lx m l by (simp add: nth_scatter)
  qed
qed

lemma bmm_pipeline:
  fixes l r :: "'a::comm_semiring_1 tensor"
  assumes p: "is_perm (both @ lonly @ sd @ ronly) d" and rk: "rank l = d" "rank r = d"
    and e1: "\<forall>i\<in>set both. sizes l ! i = sizes r ! i"
    and e2: "\<forall>i\<in>set lonly. sizes r ! i = 1"
    and e3: "\<forall>i\<in>set ronly. sizes l ! i = 1"
    and e4: "\<forall>i\<in>set sd. sizes l ! i = sizes r ! i"
  shows "bindE (permute l (map int (both @ lonly @ sd @ ronly))) (\<lambda>lp.
         bindE (reshape lp [int (prod_list (map ((!) (sizes l)) both)),
                            int (prod_list (map ((!) (sizes l)) lonly)),
                            int (prod_list (map ((!) (sizes l)) sd))]) (\<lambda>l3.
         bindE (permute r (map int (both @ sd @ ronly @ lonly))) (\<lambda>rp.
         bindE (reshape rp [int (prod_list (map ((!) (sizes l)) both)),
                            int (prod_list (map ((!) (sizes l)) sd)),
                            int (prod_list (map ((!) (sizes r)) ronly))]) (\<lambda>r3.
         bindE (bmm l3 r3) (\<lambda>res.
         bindE (view res (map int (map ((!) (sizes l)) both @ map ((!) (sizes l)) lonly
                                     @ map (\<lambda>_. 1) sd @ map ((!) (sizes r)) ronly))) (\<lambda>v.
         bindE (permute v (map int (inv_perm (both @ lonly @ sd @ ronly)))) K))))))
       = K (tabulate (map (\<lambda>a. if a \<in> set sd then 1 else broadcast_sizes (sizes l) (sizes r) ! a) [0..<d])
                (contraction sd l r))"
proof -
  let ?L = "sizes l" and ?R = "sizes r"
  let ?pl = "both @ lonly @ sd @ ronly" and ?pr = "both @ sd @ ronly @ lonly"
  let ?n1 = "map ((!) ?L) both" and ?n2 = "map ((!) ?L) lonly" and ?n3 = "map ((!) ?L) sd"
    and ?n4 = "map ((!) ?R) ronly"
  let ?out = "?n1 @ ?n2 @ map (\<lambda>_. 1) sd @ ?n4"
  let ?S = "map (\<lambda>a. if a \<in> set sd then 1 else broadcast_sizes ?L ?R ! a) [0..<d]"
  have ds: "distinct ?pl" "set ?pl = {..<d}"
    using p by (simp_all add: is_perm_def)
  have pr: "is_perm ?pr d"
    using p by (auto simp: is_perm_def)
  have len: "length ?pl = d" "length ?pr = d"
    using is_perm_length[OF p] is_perm_length[OF pr] by simp_all
  have lL: "length ?L = d" "length ?R = d"
    using rk by (simp_all add: rank_def)
  have mem: "\<And>a. a \<in> set ?pl \<Longrightarrow> a < d"
    using ds(2) by blast
  have dsd: "distinct sd"
    using ds(1) by simp
  have n1R: "map ((!) ?R) both = ?n1"
    using e1 by simp
  have n3R: "map ((!) ?R) sd = ?n3"
    using e4 by simp
  have u_ro: "prod_list (map ((!) ?L) ronly) = 1"
    using e3 by (intro prod_list_ones) auto
  have u_lo: "prod_list (map ((!) ?R) lonly) = 1"
    using e2 by (intro prod_list_ones) auto
  have u_sd: "prod_list (map (\<lambda>_. 1::nat) sd) = 1"
    by (intro prod_list_ones) auto
  define fl where "fl = (\<lambda>x. elem l (permute_index ?pl x))"
  define fr where "fr = (\<lambda>x. elem r (permute_index ?pr x))"
  define l3 where "l3 = Tensor [prod_list ?n1, prod_list ?n2, prod_list ?n3] (data (tabulate (map ((!) ?L) ?pl) fl))"
  define r3 where "r3 = Tensor [prod_list ?n1, prod_list ?n3, prod_list ?n4] (data (tabulate (map ((!) ?R) ?pr) fr))"
  define g where "g = (\<lambda>idx. sum_list (map (\<lambda>k. elem l3 [idx ! 0, idx ! 1, k] * elem r3 [idx ! 0, k, idx ! 2])
                                [0..<prod_list ?n3]))"
  define v where "v = Tensor ?out (data (tabulate [prod_list ?n1, prod_list ?n2, prod_list ?n4] g))"
  have s1: "permute l (map int ?pl) = Inr (tabulate (map ((!) ?L) ?pl) fl)"
    unfolding fl_def using len(1) ds rk(1) by (intro permute_nat) auto
  have s2: "reshape (tabulate (map ((!) ?L) ?pl) fl)
              [int (prod_list ?n1), int (prod_list ?n2), int (prod_list ?n3)] = Inr l3"
    unfolding l3_def
    using reshape_nat[of "[prod_list ?n1, prod_list ?n2, prod_list ?n3]" "tabulate (map ((!) ?L) ?pl) fl"]
    by (simp add: numel_def u_ro)
  have s3: "permute r (map int ?pr) = Inr (tabulate (map ((!) ?R) ?pr) fr)"
    unfolding fr_def using len(2) pr rk(2) by (intro permute_nat) (auto simp: is_perm_def)
  have s4: "reshape (tabulate (map ((!) ?R) ?pr) fr)
              [int (prod_list ?n1), int (prod_list ?n3), int (prod_list ?n4)] = Inr r3"
    unfolding r3_def
    using reshape_nat[of "[prod_list ?n1, prod_list ?n3, prod_list ?n4]" "tabulate (map ((!) ?R) ?pr) fr"]
    by (simp add: numel_def u_lo n1R n3R)
  have s5: "bmm l3 r3 = Inr (tabulate [prod_list ?n1, prod_list ?n2, prod_list ?n4] g)"
    unfolding g_def by (simp add: bmm_def l3_def r3_def)
  have s6: "view (tabulate [prod_list ?n1, prod_list ?n2, prod_list ?n4] g) (map int ?out) = Inr v"
    unfolding v_def view_def using u_sd by (intro reshape_nat) (simp add: numel_def)
  have s7: "permute v (map int (inv_perm ?pl))
              = Inr (tabulate (map ((!) ?out) (inv_perm ?pl)) (\<lambda>idx. elem v (permute_index (inv_perm ?pl) idx)))"
  proof -
    have "permute v (map int (inv_perm ?pl))
            = Inr (tabulate (map (\<lambda>d. sizes v ! d) (inv_perm ?pl)) (\<lambda>idx. elem v (permute_index (inv_perm ?pl) idx)))"
      using inv_perm_is_perm[OF p] len(1)
      by (intro permute_nat) (auto simp: is_perm_def v_def rank_def inv_perm_def)
    then show ?thesis
      by (simp add: v_def)
  qed
  have bs1: "\<And>a. a \<in> set both \<Longrightarrow> broadcast_sizes ?L ?R ! a = ?L ! a"
    using e1 lL mem by (simp add: broadcast_sizes_nth)
  have bs2: "\<And>a. a \<in> set lonly \<Longrightarrow> broadcast_sizes ?L ?R ! a = ?L ! a"
    using e2 lL mem by (simp add: broadcast_sizes_nth)
  have bs4: "\<And>a. a \<in> set ronly \<Longrightarrow> broadcast_sizes ?L ?R ! a = ?R ! a"
    using e3 lL mem by (simp add: broadcast_sizes_nth)
  define F where "F = (\<lambda>a. if a \<in> set sd then 1 else if a \<in> set ronly then ?R ! a else ?L ! a)"
  have outF: "?out = map F ?pl"
    using ds(1) by (auto simp: F_def)
  have sz: "map ((!) ?out) (inv_perm ?pl) = ?S"
  proof (rule nth_equalityI)
    show "length (map ((!) ?out) (inv_perm ?pl)) = length ?S"
      using len(1) by (simp add: inv_perm_def)
    fix a assume "a < length (map ((!) ?out) (inv_perm ?pl))"
    then have a: "a < d"
      using len(1) by (simp add: inv_perm_def)
    then have m: "a \<in> set ?pl"
      using ds(2) by blast
    have io: "index_of ?pl a < length ?pl" "?pl ! index_of ?pl a = a"
      using index_of_mem[OF m] by simp_all
    have "map ((!) ?out) (inv_perm ?pl) ! a = ?out ! index_of ?pl a"
      using a len(1) by (simp add: inv_perm_def)
    also have "\<dots> = F a"
      unfolding outF using io by (simp only: nth_map)
    also have "\<dots> = ?S ! a"
      using a m bs1 bs2 bs4 by (auto simp: F_def)
    finally show "map ((!) ?out) (inv_perm ?pl) ! a = ?S ! a" .
  qed
  have el: "elem v (permute_index (inv_perm ?pl) idx) = contraction sd l r idx"
    if vi: "valid_index ?S idx" for idx
  proof -
    have li: "length idx = d"
      using valid_index_length[OF vi] by simp
    have I: "idx ! a < (if a \<in> set sd then 1 else broadcast_sizes ?L ?R ! a)" if "a < d" for a
      using that valid_index_nth[OF vi, of a] by (simp split: if_splits)
    have nsd: "a \<notin> set sd" if "a \<in> set both \<union> set lonly \<union> set ronly" for a
      using ds(1) that by auto
    have I': "idx ! a < broadcast_sizes ?L ?R ! a" if "a \<in> set both \<union> set lonly \<union> set ronly" for a
    proof -
      have "a < d"
        using that by (intro mem) auto
      then show ?thesis
        using I[of a] nsd[OF that] by simp
    qed
    have I1: "\<forall>k\<in>set both. idx ! k < ?L ! k"
    proof
      fix k assume k: "k \<in> set both"
      then show "idx ! k < ?L ! k"
        using I'[of k] bs1[OF k] by simp
    qed
    have I2: "\<forall>k\<in>set lonly. idx ! k < ?L ! k"
    proof
      fix k assume k: "k \<in> set lonly"
      then show "idx ! k < ?L ! k"
        using I'[of k] bs2[OF k] by simp
    qed
    have I4: "\<forall>k\<in>set ronly. idx ! k < ?R ! k"
    proof
      fix k assume k: "k \<in> set ronly"
      then show "idx ! k < ?R ! k"
        using I'[of k] bs4[OF k] by simp
    qed
    have I3: "\<forall>k\<in>set sd. idx ! k = 0"
    proof
      fix k assume k: "k \<in> set sd"
      then have "k < d"
        by (intro mem) auto
      then show "idx ! k = 0"
        using I[of k] k by simp
    qed
    have v1: "valid_index ?n1 (map ((!) idx) both)"
      using I1 by (rule valid_index_map)
    have v2: "valid_index ?n2 (map ((!) idx) lonly)"
      using I2 by (rule valid_index_map)
    have v4: "valid_index ?n4 (map ((!) idx) ronly)"
      using I4 by (rule valid_index_map)
    have v3: "valid_index (map (\<lambda>_. 1) sd) (map ((!) idx) sd)"
      using I3 by (intro valid_indexI) simp_all
    have "elem v (permute_index (inv_perm ?pl) idx) = elem v (map ((!) idx) ?pl)"
      using permute_index_inv_perm[OF p li] by simp
    also have "\<dots> = elem v (map ((!) idx) both @ map ((!) idx) lonly @ map ((!) idx) sd @ map ((!) idx) ronly)"
      by simp
    also have "\<dots> = g [ravel ?n1 (map ((!) idx) both), ravel ?n2 (map ((!) idx) lonly),
                          ravel ?n4 (map ((!) idx) ronly)]"
      unfolding v_def using v1 v2 v3 v4 u_sd by (rule view4_elem)
    also have "\<dots> = (\<Sum>k<prod_list ?n3.
          elem l3 [ravel ?n1 (map ((!) idx) both), ravel ?n2 (map ((!) idx) lonly), k]
          * elem r3 [ravel ?n1 (map ((!) idx) both), k, ravel ?n4 (map ((!) idx) ronly)])"
      unfolding g_def by (simp add: sum_list_upt_sum)
    also have "\<dots> = sum_list (map (\<lambda>xs.
          elem l3 [ravel ?n1 (map ((!) idx) both), ravel ?n2 (map ((!) idx) lonly), ravel ?n3 xs]
          * elem r3 [ravel ?n1 (map ((!) idx) both), ravel ?n3 xs, ravel ?n4 (map ((!) idx) ronly)])
            (all_indices ?n3))"
      by (rule sum_upt_all_indices)
    also have "\<dots> = sum_list (map (\<lambda>xs. bget l (scatter idx sd xs) * bget r (scatter idx sd xs))
            (all_indices ?n3))"
    proof (rule arg_cong[where f = sum_list], rule map_cong[OF refl])
      fix xs assume "xs \<in> set (all_indices ?n3)"
      then have vx: "valid_index ?n3 xs"
        by (simp add: set_all_indices valid_index_def)
      have vxR: "valid_index (map ((!) ?R) sd) xs"
        using vx by (simp only: n3R)
      have lx: "length xs = length sd"
        using valid_index_length[OF vx] by simp
      let ?j = "scatter idx sd xs"
      have msd: "\<forall>k\<in>set sd. k < d"
        using mem by simp
      have grp: "a \<in> set both \<or> a \<in> set lonly \<or> a \<in> set ronly" if "a < d" "a \<notin> set sd" for a
        using ds(2) that by auto
      have oL: "\<forall>a<length ?L. a \<notin> set sd \<longrightarrow> ?L ! a = 1 \<or> idx ! a < ?L ! a"
      proof (intro allI impI)
        fix a assume "a < length ?L" "a \<notin> set sd"
        then show "?L ! a = 1 \<or> idx ! a < ?L ! a"
          using grp[of a] lL(1) I1 I2 e3 by blast
      qed
      have oR: "\<forall>a<length ?R. a \<notin> set sd \<longrightarrow> ?R ! a = 1 \<or> idx ! a < ?R ! a"
      proof (intro allI impI)
        fix a assume a: "a < length ?R" "a \<notin> set sd"
        have "idx ! a < ?R ! a" if "a \<in> set both"
          using I1 e1 that by simp
        then show "?R ! a = 1 \<or> idx ! a < ?R ! a"
          using grp[of a] a lL(2) I4 e2 by blast
      qed
      have bvL: "bvalid ?L ?j"
        using li lL(1) dsd msd vx oL by (intro bvalid_scatter) simp_all
      have bvR: "bvalid ?R ?j"
        using li lL(2) dsd msd vxR oR by (intro bvalid_scatter) simp_all
      have kL: "map ((!) (broadcast_index ?L ?j)) ks = map ((!) idx) ks"
        if "\<forall>k\<in>set ks. k < d \<and> k \<notin> set sd \<and> idx ! k < ?L ! k" for ks
        using that li lL(1) dsd lx msd by (intro map_cong refl scatter_keep) simp_all
      have kR: "map ((!) (broadcast_index ?R ?j)) ks = map ((!) idx) ks"
        if "\<forall>k\<in>set ks. k < d \<and> k \<notin> set sd \<and> idx ! k < ?R ! k" for ks
        using that li lL(2) dsd lx msd by (intro map_cong refl scatter_keep) simp_all
      have sL: "map ((!) (broadcast_index ?L ?j)) sd = xs"
        using li lL(1) dsd msd vx by (intro scatter_summed) simp_all
      have sR: "map ((!) (broadcast_index ?R ?j)) sd = xs"
        using li lL(2) dsd msd vxR by (intro scatter_summed) simp_all
      have L3: "elem l3 [ravel ?n1 (map ((!) idx) both), ravel ?n2 (map ((!) idx) lonly), ravel ?n3 xs]
                  = bget l ?j"
      proof -
        have k1: "map ((!) (broadcast_index ?L ?j)) both = map ((!) idx) both"
          using I1 mem nsd by (intro kL) simp
        have k2: "map ((!) (broadcast_index ?L ?j)) lonly = map ((!) idx) lonly"
          using I2 mem nsd by (intro kL) simp
        show ?thesis
          unfolding l3_def fl_def
          using perm_reshape3_elem[of both lonly sd ronly l ?j] p rk(1) bvL e3
          by (simp only: k1 k2 sL)
      qed
      have R3: "elem r3 [ravel ?n1 (map ((!) idx) both), ravel ?n3 xs, ravel ?n4 (map ((!) idx) ronly)]
                  = bget r ?j"
      proof -
        have k1: "map ((!) (broadcast_index ?R ?j)) both = map ((!) idx) both"
          using I1 e1 mem nsd by (intro kR) simp
        have k4: "map ((!) (broadcast_index ?R ?j)) ronly = map ((!) idx) ronly"
          using I4 mem nsd by (intro kR) simp
        show ?thesis
          unfolding r3_def fr_def
          using perm_reshape3_elem[of both sd ronly lonly r ?j] pr rk(2) bvR e2
          by (simp only: k1 k4 sR n1R n3R)
      qed
      show "elem l3 [ravel ?n1 (map ((!) idx) both), ravel ?n2 (map ((!) idx) lonly), ravel ?n3 xs]
          * elem r3 [ravel ?n1 (map ((!) idx) both), ravel ?n3 xs, ravel ?n4 (map ((!) idx) ronly)]
          = bget l ?j * bget r ?j"
        by (simp only: L3 R3)
    qed
    also have "\<dots> = nsum sd ((!) ?L) (\<lambda>j. bget l j * bget r j) idx"
      by (rule sum_list_all_indices_nsum)
    also have "\<dots> = contraction sd l r idx"
      unfolding contraction_def using e4 lL mem by (intro nsum_cong refl) (simp add: broadcast_sizes_nth)
    finally show ?thesis .
  qed
  have "tabulate (map ((!) ?out) (inv_perm ?pl)) (\<lambda>idx. elem v (permute_index (inv_perm ?pl) idx))
        = tabulate ?S (contraction sd l r)"
    unfolding sz by (rule tabulate_cong) (rule el)
  then show ?thesis
    by (simp only: s1 s2 s3 s4 s5 s6 s7 bindE_Inr)
qed

section \<open>Axis sets, dropped axes and the reference of pairwise contraction\<close>

lemma drop_axes_append:
  "length ms = length xs \<Longrightarrow> drop_axes (ms @ ms') (xs @ xs') = drop_axes ms xs @ drop_axes ms' xs'"
  by (simp add: drop_axes_def)

lemma erase_summed_fold:
  "length xs = d \<Longrightarrow> d \<le> length msk \<Longrightarrow>
     fold (\<lambda>i acc. if msk ! i then remove_nth i acc else acc) (rev [0..<d]) (xs @ ys)
       = drop_axes (take d msk) xs @ ys"
proof (induction d arbitrary: xs ys)
  case 0
  then show ?case by (simp add: drop_axes_def)
next
  case (Suc d)
  obtain xs' x where xs: "xs = xs' @ [x]" and l: "length xs' = d"
    using Suc.prems(1) by (cases xs rule: rev_cases) simp_all
  have tk: "take (Suc d) msk = take d msk @ [msk ! d]"
    using Suc.prems(2) by (simp add: take_Suc_conv_app_nth)
  have dr: "drop_axes (take (Suc d) msk) xs = drop_axes (take d msk) xs' @ (if msk ! d then [] else [x])"
    unfolding tk xs using l Suc.prems(2) by (subst drop_axes_append) (simp_all add: drop_axes_def)
  have rm: "remove_nth d (xs @ ys) = xs' @ ys"
    using l by (simp add: remove_nth_def xs)
  show ?case
  proof (cases "msk ! d")
    case True
    then show ?thesis
      using Suc.IH[of xs' ys] l Suc.prems(2) rm dr by simp
  next
    case False
    then show ?thesis
      using Suc.IH[of xs' "x # ys"] l Suc.prems(2) dr by (simp add: xs)
  qed
qed

lemma erase_summed_drop_axes:
  "length xs = d \<Longrightarrow> length msk = d \<Longrightarrow> erase_summed msk d xs = drop_axes msk xs"
  using erase_summed_fold[of xs d msk "[]"] by (simp add: erase_summed_def)

lemma dim_list_to_bitset_loop_nat:
  "distinct ks \<Longrightarrow> \<forall>a\<in>set ks. a < n \<and> a < length seen \<and> \<not> seen ! a \<Longrightarrow>
     dim_list_to_bitset_loop (map int ks) n seen
       = Inr (map (\<lambda>a. seen ! a \<or> a \<in> set ks) [0..<length seen])"
proof (induction ks arbitrary: seen)
  case Nil
  show ?case by (simp add: map_nth)
next
  case (Cons k ks)
  have k: "k < n" "k < length seen" "\<not> seen ! k" "k \<notin> set ks" "distinct ks"
    using Cons.prems by auto
  have "dim_list_to_bitset_loop (map int ks) n (seen[k := True])
          = Inr (map (\<lambda>a. seen[k := True] ! a \<or> a \<in> set ks) [0..<length (seen[k := True])])"
    using Cons.prems k by (intro Cons.IH) (auto simp: nth_list_update)
  moreover have "map (\<lambda>a. seen[k := True] ! a \<or> a \<in> set ks) [0..<length (seen[k := True])]
          = map (\<lambda>a. seen ! a \<or> a \<in> set (k # ks)) [0..<length seen]"
    using k(2) by (auto simp: nth_list_update)
  ultimately show ?case
    using k by (simp add: maybe_wrap_dim_nat)
qed

lemma dim_list_to_bitset_nat:
  assumes "distinct ks" "\<forall>a\<in>set ks. a < n"
  shows "dim_list_to_bitset (map int ks) n = Inr (map (\<lambda>a. a \<in> set ks) [0..<max n 1])"
proof -
  have "dim_list_to_bitset_loop (map int ks) n (replicate (max n 1) False)
          = Inr (map (\<lambda>a. replicate (max n 1) False ! a \<or> a \<in> set ks) [0..<length (replicate (max n 1) False)])"
    using assms by (intro dim_list_to_bitset_loop_nat) auto
  moreover have "map (\<lambda>a. replicate (max n 1) False ! a \<or> a \<in> set ks) [0..<length (replicate (max n 1) False)]
          = map (\<lambda>a. a \<in> set ks) [0..<max n 1]"
    by simp
  ultimately show ?thesis
    by (simp only: dim_list_to_bitset_def)
qed

lemma wf_fold_sum_keep: "wf t \<Longrightarrow> wf (fold (\<lambda>k acc. sum_keep acc k) ks t)"
  by (induction ks arbitrary: t) simp_all

lemma rank_fold_sum_keep [simp]: "rank (fold (\<lambda>k acc. sum_keep acc k) ks t) = rank t"
  by (induction ks arbitrary: t) simp_all

lemma sizes_fold_sum_keep_eq:
  "sizes (fold (\<lambda>k acc. sum_keep acc k) ks t)
     = map (\<lambda>a. if a \<in> set ks then 1 else sizes t ! a) [0..<rank t]"
  using sizes_fold_sum_keep[of ks t] by (intro nth_equalityI) (simp_all add: rank_def)

lemma product_sum_elem:
  fixes l r :: "'a::comm_semiring_1 tensor"
  assumes cp: "compatible (sizes l) (sizes r)" and sd: "distinct sd" "\<forall>a\<in>set sd. a < rank l"
    and v: "valid_index (map (\<lambda>a. if a \<in> set sd then 1 else broadcast_sizes (sizes l) (sizes r) ! a) [0..<rank l]) idx"
  shows "elem (fold (\<lambda>k acc. sum_keep acc k) sd
                 (tabulate (broadcast_sizes (sizes l) (sizes r)) (\<lambda>idx. bget l idx * bget r idx))) idx
         = contraction sd l r idx"
proof -
  let ?bs = "broadcast_sizes (sizes l) (sizes r)"
  let ?P = "tabulate ?bs (\<lambda>idx. bget l idx * bget r idx)"
  have lb: "length ?bs = rank l"
    using compatible_length[OF cp] by (simp add: rank_def)
  have rP: "rank ?P = rank l"
    using lb by (simp add: rank_def)
  have li: "length idx = rank l"
    using valid_index_length[OF v] by simp
  have I: "idx ! a < (if a \<in> set sd then 1 else ?bs ! a)" if "a < rank l" for a
    using that valid_index_nth[OF v, of a] by (simp split: if_splits)
  have v': "valid_index (sizes (fold (\<lambda>k acc. sum_keep acc k) sd ?P)) idx"
    using v by (simp add: sizes_fold_sum_keep_eq rP cong: if_cong)
  have "elem (fold (\<lambda>k acc. sum_keep acc k) sd ?P) idx = nsum (rev sd) (\<lambda>a. sizes ?P ! a) (elem ?P) idx"
    using sd v' rP by (intro elem_fold_sum_keep) simp_all
  also have "\<dots> = nsum sd (\<lambda>a. ?bs ! a) (elem ?P) idx"
    using nsum_rev[OF sd(1)] by simp
  also have "\<dots> = nsum sd (\<lambda>a. ?bs ! a) (\<lambda>j. bget l j * bget r j) idx"
  proof (rule nsum_cong_reach)
    fix jdx assume j: "length jdx = length idx" "\<forall>a<length idx. a \<notin> set sd \<longrightarrow> jdx ! a = idx ! a"
      "\<forall>a\<in>set sd. a < length idx \<longrightarrow> jdx ! a < ?bs ! a"
    have "valid_index ?bs jdx"
    proof (rule valid_indexI)
      show "length jdx = length ?bs"
        using j(1) li lb by simp
      fix k assume "k < length ?bs"
      then have k: "k < rank l"
        by (simp only: lb)
      show "jdx ! k < ?bs ! k"
        using j(2,3) I[OF k] k li by (cases "k \<in> set sd") simp_all
    qed
    then show "elem ?P jdx = bget l jdx * bget r jdx"
      by (rule elem_tabulate)
  qed
  finally show ?thesis
    by (simp add: contraction_def)
qed

lemma bmm_pipeline_vars:
  fixes l r :: "'a::comm_semiring_1 tensor"
  assumes p: "is_perm (both @ lonly @ sd @ ronly) d" and rk: "rank l = d" "rank r = d"
    and e1: "\<forall>i\<in>set both. sizes l ! i = sizes r ! i"
    and e2: "\<forall>i\<in>set lonly. sizes r ! i = 1"
    and e3: "\<forall>i\<in>set ronly. sizes l ! i = 1"
    and e4: "\<forall>i\<in>set sd. sizes l ! i = sizes r ! i"
    and v: "lperm = map int (both @ lonly @ sd @ ronly)" "rperm = map int (both @ sd @ ronly @ lonly)"
      "a = prod_list (map ((!) (sizes l)) both)" "b = prod_list (map ((!) (sizes l)) lonly)"
      "c = prod_list (map ((!) (sizes l)) sd)" "e = prod_list (map ((!) (sizes r)) ronly)"
      "out = map ((!) (sizes l)) both @ map ((!) (sizes l)) lonly @ map (\<lambda>_. 1) sd @ map ((!) (sizes r)) ronly"
      "operm = map int (inv_perm (both @ lonly @ sd @ ronly))"
  shows "bindE (permute l lperm) (\<lambda>lp.
         bindE (reshape lp [int a, int b, int c]) (\<lambda>l3.
         bindE (permute r rperm) (\<lambda>rp.
         bindE (reshape rp [int a, int c, int e]) (\<lambda>r3.
         bindE (bmm l3 r3) (\<lambda>res.
         bindE (view res (map int out)) (\<lambda>v.
         bindE (permute v operm) K))))))
       = K (tabulate (map (\<lambda>a. if a \<in> set sd then 1 else broadcast_sizes (sizes l) (sizes r) ! a) [0..<d])
                (contraction sd l r))"
  unfolding v by (rule bmm_pipeline[OF p rk e1 e2 e3 e4])

lemma sumproduct_pair_unfold:
  assumes "rank right_in = rank left_in" "sum_dims_in \<noteq> []"
    "dim_list_to_bitset sum_dims_in (rank left_in) = Inr sum_dims"
    "sumproduct_loop sum_dims [0..<rank left_in]
        \<lparr>lro = [], lo = [], ro = [], lro_size = 1, lo_size = 1, ro_size = 1,
         sum_size = 1, left = left_in, right = right_in\<rparr> = Inr st"
  shows "sumproduct_pair left_in right_in sum_dims_in keepdim =
        bindE (opermutation_loop (map int (lro st) @ map int (lo st) @ sum_dims_in @ map int (ro st)) 0
                 (replicate (length (lro st) + length (lo st) + length sum_dims_in + length (ro st)) (- 1)))
          (\<lambda>opermutation.
        bindE (permute (left st) (map int (lro st) @ map int (lo st) @ sum_dims_in @ map int (ro st))) (\<lambda>lp.
        bindE (reshape lp [int (lro_size st), int (lo_size st), int (sum_size st)]) (\<lambda>l3.
        bindE (permute (right st) (map int (lro st) @ sum_dims_in @ map int (ro st) @ map int (lo st))) (\<lambda>rp.
        bindE (reshape rp [int (lro_size st), int (sum_size st), int (ro_size st)]) (\<lambda>r3.
        bindE (bmm l3 r3) (\<lambda>result.
        bindE (view result (map int (map (\<lambda>d. sizes (left st) ! d) (lro st) @ map (\<lambda>d. sizes (left st) ! d) (lo st)
                         @ map (\<lambda>d. 1) sum_dims_in @ map (\<lambda>d. sizes (right st) ! d) (ro st)))) (\<lambda>v.
        bindE (permute v opermutation) (\<lambda>result'.
          if \<not> keepdim then view result' (map int (erase_summed sum_dims (rank left_in) (sizes result')))
          else Inr result'))))))))"
  using assms by (simp add: sumproduct_pair_def Let_def)

lemma prod_list_drop_axes:
  "length ms = length xs \<Longrightarrow> \<forall>k<length xs. ms ! k \<longrightarrow> xs ! k = 1 \<Longrightarrow>
     prod_list (drop_axes ms xs) = prod_list xs"
proof (induction ms xs rule: list_induct2)
  case Nil
  show ?case by (simp add: drop_axes_def)
next
  case (Cons m ms x xs)
  have "\<forall>k<length xs. ms ! k \<longrightarrow> xs ! k = 1"
    using Cons.prems by auto
  then have "prod_list (drop_axes ms xs) = prod_list xs"
    by (rule Cons.IH)
  moreover have "m \<longrightarrow> x = 1"
    using Cons.prems by auto
  ultimately show ?case
    by (auto simp: drop_axes_Cons)
qed

lemma prod_list_filtered:
  fixes f :: "nat \<Rightarrow> nat"
  assumes "distinct ks" "\<forall>a\<in>set ks. a < d" "\<forall>a\<in>set ks. \<not> P a \<longrightarrow> f a = 1"
  shows "prod_list (map f ks) = prod_list (map f (filter (\<lambda>a. a \<in> set ks \<and> P a) [0..<d]))"
proof -
  let ?fs = "filter (\<lambda>a. a \<in> set ks \<and> P a) [0..<d]"
  have st: "set ?fs = {a \<in> set ks. P a}"
    using assms(2) by auto
  have "prod_list (map f ks) = prod f (set ks)"
    using assms(1) by (simp add: prod.distinct_set_conv_list)
  also have "\<dots> = prod f {a \<in> set ks. P a}"
    using assms(3) by (intro prod.mono_neutral_right) auto
  also have "\<dots> = prod f (set ?fs)"
    by (simp only: st)
  also have "\<dots> = prod_list (map f ?fs)"
    by (rule prod.distinct_set_conv_list) simp
  finally show ?thesis .
qed

section \<open>sumproduct_pair against its reference\<close>

lemma reduce_sum_ref_Nil: "reduce_sum_ref t [] keepdim = t"
proof -
  have "map (\<lambda>k. False) [0..<rank t] = replicate (length (sizes t)) False"
    by (simp add: map_replicate_const rank_def)
  then show ?thesis
    by (simp add: reduce_sum_ref_def drop_axes_False)
qed

lemma compatible_fold_sum_keep:
  "compatible (sizes t) bs \<Longrightarrow> compatible (sizes (fold (\<lambda>k acc. sum_keep acc k) ks t)) bs"
proof (induction ks arbitrary: t)
  case Nil
  then show ?case by simp
next
  case (Cons k ks)
  have "compatible (sizes (sum_keep t k)) bs"
    using compatible_update_left[OF Cons.prems, of k] by simp
  then show ?case
    using Cons.IH[of "sum_keep t k"] by simp
qed

lemma sumproduct_pair_reduce_sum:
  fixes l r :: "'a::comm_semiring_1 tensor"
  assumes cp: "compatible (sizes l) (sizes r)" and pos: "positive (sizes l)" "positive (sizes r)"
    and sd: "distinct sd" "\<forall>a\<in>set sd. a < rank l"
  shows "sumproduct_pair l r (map int sd) keepdim = sumproduct_ref l r sd keepdim"
proof (cases "sd = []")
  case True
  have "rank l = rank r"
    using compatible_length[OF cp] by (simp add: rank_def)
  then have "sumproduct_pair l r (map int sd) keepdim = mul l r"
    using True by (simp add: sumproduct_pair_def)
  moreover have "sumproduct_ref l r sd keepdim = mul l r"
    using True mul_bget[OF cp] by (simp add: sumproduct_ref_def reduce_sum_ref_Nil)
  ultimately show ?thesis
    by simp
next
  case False
  define d where "d = rank l"
  let ?L = "sizes l" and ?R = "sizes r"
  let ?bs = "broadcast_sizes (sizes l) (sizes r)"
  have lL: "length ?L = d" "length ?R = d"
    using compatible_length[OF cp] by (simp_all add: d_def rank_def)
  have rk: "rank r = rank l" "rank l = d" "rank r = d"
    using lL by (simp_all add: rank_def d_def)
  have sdd: "\<forall>a\<in>set sd. a < d"
    using sd(2) by (simp add: d_def)
  have dpos: "0 < d"
    using False sdd by (cases sd) auto
  define M where "M = map (\<lambda>a. a \<in> set sd) [0..<d]"
  have dl: "dim_list_to_bitset (map int sd) (rank l) = Inr M"
  proof -
    have "max (rank l) 1 = d"
      using dpos by (simp add: d_def)
    then show ?thesis
      using dim_list_to_bitset_nat[OF sd] by (simp only: M_def)
  qed
  have Mn: "M ! i = (i \<in> set sd)" if "i < d" for i
    using that by (simp add: M_def)
  have lM: "length M = d"
    by (simp add: M_def)
  have Lp: "0 < ?L ! i" "0 < ?R ! i" if "i < d" for i
    using pos that lL by (simp_all add: positive_def list_all_length)
  have cn: "?L ! i = ?R ! i \<or> ?L ! i = 1 \<or> ?R ! i = 1" if "i < d" for i
    using compatible_nth[OF cp, of i] that lL by simp
  define both where "both = filter (\<lambda>i. i \<notin> set sd \<and> ?L ! i > 1 \<and> ?R ! i > 1) [0..<d]"
  define lonly where "lonly = filter (\<lambda>i. i \<notin> set sd \<and> ?L ! i > 1 \<and> \<not> ?R ! i > 1) [0..<d]"
  define ronly where "ronly = filter (\<lambda>i. i \<notin> set sd \<and> \<not> ?L ! i > 1) [0..<d]"
  define kb where "kb = filter (\<lambda>i. i \<in> set sd \<and> ?L ! i > 1 \<and> ?R ! i > 1) [0..<d]"
  define kl where "kl = filter (\<lambda>i. i \<in> set sd \<and> ?L ! i > 1 \<and> \<not> ?R ! i > 1) [0..<d]"
  define kr where "kr = filter (\<lambda>i. i \<in> set sd \<and> \<not> ?L ! i > 1 \<and> ?R ! i > 1) [0..<d]"
  define l' where "l' = fold (\<lambda>k acc. sum_keep acc k) kl l"
  define r' where "r' = fold (\<lambda>k acc. sum_keep acc k) kr r"
  define st where "st = \<lparr>lro = both, lo = lonly, ro = ronly,
      lro_size = prod_list (map ((!) ?L) both), lo_size = prod_list (map ((!) ?L) lonly),
      ro_size = prod_list (map ((!) ?R) ronly), sum_size = prod_list (map ((!) ?L) kb),
      left = l', right = r'\<rparr>"
  have loop: "sumproduct_loop M [0..<rank l]
        \<lparr>lro = [], lo = [], ro = [], lro_size = 1, lo_size = 1, ro_size = 1,
         sum_size = 1, left = l, right = r\<rparr> = Inr st"
  proof -
    let ?st0 = "\<lparr>lro = [], lo = [], ro = [], lro_size = 1, lo_size = 1, ro_size = 1,
         sum_size = 1, left = l, right = r\<rparr>"
    have "sumproduct_loop M [0..<d] ?st0 = Inr (loop_result M [0..<d] ?st0)"
    proof (rule sumproduct_loop_result)
      show "distinct [0..<d]"
        by simp
      show "\<forall>i\<in>set [0..<d]. i < rank (left ?st0) \<and> i < rank (right ?st0)"
        using rk(2,3) by simp
      show "\<forall>i\<in>set [0..<d]. sizes (left ?st0) ! i > 1 \<and> sizes (right ?st0) ! i > 1 \<longrightarrow>
              sizes (left ?st0) ! i = sizes (right ?st0) ! i"
      proof (intro ballI impI)
        fix i assume "i \<in> set [0..<d]" "sizes (left ?st0) ! i > 1 \<and> sizes (right ?st0) ! i > 1"
        then show "sizes (left ?st0) ! i = sizes (right ?st0) ! i"
          using cn[of i] by auto
      qed
    qed
    moreover have fM: "filter (\<lambda>i. M ! i \<and> Q i) [0..<d] = filter (\<lambda>i. i \<in> set sd \<and> Q i) [0..<d]"
      "filter (\<lambda>i. \<not> M ! i \<and> Q i) [0..<d] = filter (\<lambda>i. i \<notin> set sd \<and> Q i) [0..<d]" for Q
      by (rule filter_cong, simp, simp add: Mn)+
    have "loop_result M [0..<d] ?st0 = st"
      unfolding loop_result_def st_def Let_def both_def lonly_def ronly_def kb_def kl_def kr_def
        l'_def r'_def
      by (simp add: fM)
    moreover note this
    ultimately show ?thesis
      by (simp add: d_def)
  qed
  have sel: "lro st = both" "lo st = lonly" "ro st = ronly" "lro_size st = prod_list (map ((!) ?L) both)"
    "lo_size st = prod_list (map ((!) ?L) lonly)" "ro_size st = prod_list (map ((!) ?R) ronly)"
    "sum_size st = prod_list (map ((!) ?L) kb)" "left st = l'" "right st = r'"
    by (simp_all add: st_def)
  have p: "is_perm (both @ lonly @ sd @ ronly) d"
    unfolding is_perm_def
  proof
    show "distinct (both @ lonly @ sd @ ronly)"
      using sd(1) by (auto simp: both_def lonly_def ronly_def)
    show "set (both @ lonly @ sd @ ronly) = {..<d}"
      using sdd by (auto simp: both_def lonly_def ronly_def)
  qed
  have mb: "i < d \<and> i \<notin> set sd \<and> ?L ! i > 1 \<and> ?R ! i > 1" if "i \<in> set both" for i
    using that by (simp add: both_def)
  have ml: "i < d \<and> i \<notin> set sd \<and> ?L ! i > 1 \<and> ?R ! i = 1" if "i \<in> set lonly" for i
    using that Lp(2)[of i] by (auto simp: lonly_def)
  have mr: "i < d \<and> i \<notin> set sd \<and> ?L ! i = 1" if "i \<in> set ronly" for i
    using that Lp(1)[of i] by (auto simp: ronly_def)
  have nkl: "i \<notin> set kl" "i \<notin> set kr" if "i \<notin> set sd" for i
    using that by (simp_all add: kl_def kr_def)
  have rk': "rank l' = d" "rank r' = d"
    using rk by (simp_all add: l'_def r'_def)
  have szl: "sizes l' ! i = (if i \<in> set kl then 1 else ?L ! i)" if "i < d" for i
    using sizes_fold_sum_keep[of kl l] that lL by (simp add: l'_def)
  have szr: "sizes r' ! i = (if i \<in> set kr then 1 else ?R ! i)" if "i < d" for i
    using sizes_fold_sum_keep[of kr r] that lL by (simp add: r'_def)
  have keepl: "sizes l' ! i = ?L ! i" and keepr: "sizes r' ! i = ?R ! i" if "i < d" "i \<notin> set sd" for i
    using that szl[of i] szr[of i] nkl[of i] by simp_all
  have e1: "\<forall>i\<in>set both. sizes l' ! i = sizes r' ! i"
  proof
    fix i assume "i \<in> set both"
    then show "sizes l' ! i = sizes r' ! i"
      using mb[of i] cn[of i] keepl[of i] keepr[of i] by simp
  qed
  have e2: "\<forall>i\<in>set lonly. sizes r' ! i = 1"
  proof
    fix i assume "i \<in> set lonly"
    then show "sizes r' ! i = 1"
      using ml[of i] keepr[of i] by simp
  qed
  have e3: "\<forall>i\<in>set ronly. sizes l' ! i = 1"
  proof
    fix i assume "i \<in> set ronly"
    then show "sizes l' ! i = 1"
      using mr[of i] keepl[of i] by simp
  qed
  have sl: "sizes l' ! i = (if ?L ! i > 1 \<and> ?R ! i > 1 then ?L ! i else 1)"
    and sr: "sizes r' ! i = (if ?L ! i > 1 \<and> ?R ! i > 1 then ?L ! i else 1)" if "i \<in> set sd" for i
  proof -
    have i: "i < d"
      using that sdd by simp
    show "sizes l' ! i = (if ?L ! i > 1 \<and> ?R ! i > 1 then ?L ! i else 1)"
      using szl[OF i] that i Lp(1)[OF i] by (auto simp: kl_def)
    show "sizes r' ! i = (if ?L ! i > 1 \<and> ?R ! i > 1 then ?L ! i else 1)"
      using szr[OF i] that i Lp[OF i] cn[OF i] by (auto simp: kr_def)
  qed
  have e4: "\<forall>i\<in>set sd. sizes l' ! i = sizes r' ! i"
    using sl sr by simp
  have opl: "opermutation_loop (map int both @ map int lonly @ map int sd @ map int ronly) 0
                 (replicate (length both + length lonly + length (map int sd) + length ronly) (- 1))
               = Inr (map int (inv_perm (both @ lonly @ sd @ ronly)))"
  proof -
    have "length both + length lonly + length (map int sd) + length ronly = d"
      using is_perm_length[OF p] by simp
    then show ?thesis
      using opermutation_loop_perm[OF p] by (simp only: map_append)
  qed
  define T where "T = tabulate (map (\<lambda>a. if a \<in> set sd then 1 else broadcast_sizes (sizes l') (sizes r') ! a) [0..<d])
                (contraction sd l' r')"
  have q1: "prod_list (map ((!) ?L) both) = prod_list (map ((!) (sizes l')) both)"
    using mb keepl by (intro arg_cong[where f = prod_list] map_cong refl) simp
  have q2: "prod_list (map ((!) ?L) lonly) = prod_list (map ((!) (sizes l')) lonly)"
    using ml keepl by (intro arg_cong[where f = prod_list] map_cong refl) simp
  have q4: "prod_list (map ((!) ?R) ronly) = prod_list (map ((!) (sizes r')) ronly)"
    using mr keepr by (intro arg_cong[where f = prod_list] map_cong refl) simp
  have q3: "prod_list (map ((!) ?L) kb) = prod_list (map ((!) (sizes l')) sd)"
  proof -
    have "prod_list (map ((!) (sizes l')) sd)
            = prod_list (map ((!) (sizes l')) (filter (\<lambda>a. a \<in> set sd \<and> (?L ! a > 1 \<and> ?R ! a > 1)) [0..<d]))"
      using sd(1) sdd sl by (intro prod_list_filtered) simp_all
    also have "\<dots> = prod_list (map ((!) ?L) kb)"
      unfolding kb_def using sl by (intro arg_cong[where f = prod_list] map_cong refl) simp
    finally show ?thesis
      by simp
  qed
  have sdne: "map int sd \<noteq> []"
    using False by simp
  have code: "sumproduct_pair l r (map int sd) keepdim
          = (if \<not> keepdim then view T (map int (erase_summed M (rank l) (sizes T))) else Inr T)"
    unfolding T_def
    apply (subst sumproduct_pair_unfold[OF rk(1) sdne dl loop, of keepdim])
    apply (simp only: sel opl bindE_Inr)
    apply (rule bmm_pipeline_vars[where K = "\<lambda>t. if \<not> keepdim then view t (map int (erase_summed M (rank l) (sizes t))) else Inr t",
           OF p rk' e1 e2 e3 e4])
           apply (simp_all add: q1 q2 q3 q4)
    done
  let ?P = "tabulate ?bs (\<lambda>idx. bget l idx * bget r idx)"
  define Q where "Q = fold (\<lambda>k acc. sum_keep acc k) sd ?P"
  have rP: "rank ?P = d"
    using lL by (simp add: rank_def)
  have ref: "sumproduct_ref l r sd keepdim
               = Inr (if keepdim then Q else Tensor (drop_axes M (sizes Q)) (data Q))"
    using mul_bget[OF cp] rP by (simp add: sumproduct_ref_def reduce_sum_ref_def Let_def Q_def M_def)
  have szQ: "sizes Q = map (\<lambda>a. if a \<in> set sd then 1 else ?bs ! a) [0..<d]"
    unfolding Q_def sizes_fold_sum_keep_eq rP by simp
  have lr': "length (sizes l') = d" "length (sizes r') = d"
    using rk' by (simp_all add: rank_def)
  have bs': "broadcast_sizes (sizes l') (sizes r') ! a = ?bs ! a" if "a < d" "a \<notin> set sd" for a
    using that lL lr' keepl[of a] keepr[of a] by (simp add: broadcast_sizes_nth)
  have szT: "sizes T = sizes Q"
    unfolding szQ T_def using bs' by simp
  have TQ: "T = Q"
  proof -
    have el: "contraction sd l' r' idx = elem Q idx" if v: "valid_index (sizes Q) idx" for idx
    proof -
      have li: "length idx = d"
        using valid_index_length[OF v] by (simp add: szQ)
      have I: "\<forall>a<d. a \<notin> set sd \<longrightarrow> idx ! a < ?bs ! a"
      proof (intro allI impI)
        fix a assume "a < d" "a \<notin> set sd"
        then show "idx ! a < ?bs ! a"
          using valid_index_nth[OF v, of a] by (simp add: szQ)
      qed
      have cl: "compatible (sizes l') ?R"
        unfolding l'_def using cp by (rule compatible_fold_sum_keep)
      have I': "\<forall>a<d. a \<notin> set sd \<longrightarrow> idx ! a < broadcast_sizes (sizes l') ?R ! a"
      proof (intro allI impI)
        fix a assume a: "a < d" "a \<notin> set sd"
        then show "idx ! a < broadcast_sizes (sizes l') ?R ! a"
          using I[rule_format, OF a] a(1) lL lr' keepl[OF a]
          by (simp add: broadcast_sizes_nth split: if_splits)
      qed
      have kl1: "\<forall>k\<in>set kl. ?R ! k = 1"
      proof
        fix k assume "k \<in> set kl"
        then show "?R ! k = 1"
          using Lp(2)[of k] by (simp add: kl_def)
      qed
      have kr1: "\<forall>k\<in>set kr. sizes l' ! k = 1"
      proof
        fix k assume "k \<in> set kr"
        then show "sizes l' ! k = 1"
          using sl[of k] by (simp add: kr_def)
      qed
      have "elem Q idx = contraction sd l r idx"
        unfolding Q_def using cp sd v by (intro product_sum_elem) (simp_all add: szQ rk(2))
      also have "\<dots> = contraction sd l' r idx"
        unfolding l'_def using sd(1) sdd rk(2,3) cp kl1 li I
        by (intro absorb_left_list[where d = d]) (auto simp: kl_def)
      also have "\<dots> = contraction sd l' r' idx"
        unfolding r'_def using sd(1) sdd rk'(1) rk(3) cl kr1 li I'
        by (intro absorb_right_list[where d = d]) (auto simp: kr_def)
      finally show ?thesis
        by simp
    qed
    have "wf Q"
      unfolding Q_def by (intro wf_fold_sum_keep) simp
    then have "Q = tabulate (sizes Q) (elem Q)"
      by (simp add: tabulate_elem)
    moreover have "T = tabulate (sizes Q) (contraction sd l' r')"
      using szT by (simp add: T_def)
    moreover have "tabulate (sizes Q) (contraction sd l' r') = tabulate (sizes Q) (elem Q)"
      by (rule tabulate_cong) (rule el)
    ultimately show ?thesis
      by simp
  qed
  have "view Q (map int (erase_summed M (rank l) (sizes Q))) = Inr (Tensor (drop_axes M (sizes Q)) (data Q))"
  proof -
    have lQ: "length (sizes Q) = d"
      by (simp add: szQ)
    have "erase_summed M (rank l) (sizes Q) = drop_axes M (sizes Q)"
      unfolding rk(2) using lQ lM by (rule erase_summed_drop_axes)
    moreover have "prod_list (drop_axes M (sizes Q)) = numel Q"
      unfolding numel_def using lM lQ by (intro prod_list_drop_axes) (simp_all add: szQ Mn)
    ultimately show ?thesis
      by (simp add: view_def reshape_nat)
  qed
  then show ?thesis
    unfolding code ref TQ by simp
qed

lemma drop_axes_map:
  "drop_axes (map P xs) (map f xs) = map f (filter (\<lambda>a. \<not> P a) xs)"
  by (induction xs) (simp_all add: drop_axes_def)

section \<open>The diagonal of two axes\<close>

lemma diagonal_step:
  assumes "dim < j" "j < rank t" "sizes t ! j = sizes t ! dim"
  shows "diagonal t 0 (int j) (int dim) =
    Inr (tabulate (remove_nth dim (remove_nth j (sizes t)) @ [sizes t ! dim])
      (\<lambda>idx. elem t (insert_nth j (last idx) (insert_nth dim (last idx) (butlast idx)))))"
  using assms
  by (simp add: diagonal_def maybe_wrap_dim_nat Let_def min_def max_def)

lemma repeated_label_diagonal:
  assumes dj: "dim < j" and jr: "j < rank t" and eq: "sizes t ! j = sizes t ! dim"
  shows "bindE (diagonal t 0 (int j) (int dim)) (\<lambda>t1.
         bindE (unsqueeze t1 (int dim)) (\<lambda>t2.
         bindE (transpose_dims t2 (int dim) (- 1)) (\<lambda>t3.
         bindE (squeeze t3 (- 1)) K)))
       = K (tabulate (remove_nth j (sizes t)) (\<lambda>idx. elem t (insert_nth j (idx ! dim) idx)))"
proof -
  define ns where "ns = sizes t"
  define r where "r = length ns"
  define s where "s = ns ! dim"
  define rest where "rest = remove_nth dim (remove_nth j ns)"
  define fD where "fD = (\<lambda>idx. elem t (insert_nth j (last idx) (insert_nth dim (last idx) (butlast idx))))"
  define D where "D = tabulate (rest @ [s]) fD"
  define nU where "nU = insert_nth dim 1 (rest @ [s])"
  define U where "U = Tensor nU (data D)"
  define nT where "nT = nU[dim := nU ! (r - 1), r - 1 := nU ! dim]"
  define fT where "fT = (\<lambda>idx. elem U (idx[dim := idx ! (r - 1), r - 1 := idx ! dim]))"
  define T where "T = tabulate nT fT"
  define F where "F = Tensor (remove_nth (r - 1) nT) (data T)"
  have r: "j < r" "dim < r" "dim < r - 1" "2 \<le> r"
    using dj jr by (simp_all add: rank_def r_def ns_def)
  have lrest: "length rest = r - 2"
    using r dj by (simp add: rest_def r_def)
  have s1: "diagonal t 0 (int j) (int dim) = Inr D"
    using diagonal_step[OF assms] by (simp add: D_def fD_def rest_def s_def ns_def)
  have sD: "sizes D = rest @ [s]" by (simp add: D_def)
  have lnU: "length nU = r" using lrest r by (simp add: nU_def)
  have s2: "unsqueeze D (int dim) = Inr U"
    using r lrest by (simp add: unsqueeze_def maybe_wrap_dim_nat rank_def sD U_def nU_def)
  have sU: "sizes U = nU" by (simp add: U_def)
  have s3: "transpose_dims U (int dim) (- 1) = Inr T"
    using r lnU by (simp add: transpose_dims_def maybe_wrap_dim_nat maybe_wrap_dim_last rank_def sU T_def nT_def fT_def)
  have lnT: "length nT = r" using lnU by (simp add: nT_def)
  have nUdim: "nU ! dim = 1"
    using r lrest by (simp add: nU_def nth_insert_nth)
  have nUlast: "nU ! (r - 1) = s"
    using r lrest by (simp add: nU_def nth_insert_nth nth_append numeral_2_eq_2)
  have nTlast: "nT ! (r - 1) = 1"
    using r lnU nUdim by (simp add: nT_def)
  have sT: "sizes T = nT" by (simp add: T_def)
  have s4: "squeeze T (- 1) = Inr F"
    using r lnT nTlast by (simp add: squeeze_def rank_def maybe_wrap_dim_last sT F_def)
  have nF: "remove_nth (r - 1) nT = remove_nth j ns"
  proof (rule nth_equalityI)
    show "length (remove_nth (r - 1) nT) = length (remove_nth j ns)"
      using r lnT by (simp add: r_def)
  next
    fix i assume "i < length (remove_nth (r - 1) nT)"
    then have i: "i < r - 1" using r lnT by simp
    show "remove_nth (r - 1) nT ! i = remove_nth j ns ! i"
      using i r lnT lnU lrest dj eq
      by (auto simp: nth_remove_nth nT_def nU_def nth_insert_nth nth_append nth_list_update
            rest_def r_def s_def ns_def)
  qed
  have "F = tabulate (remove_nth j ns) (\<lambda>idx. elem t (insert_nth j (idx ! dim) idx))"
  proof (rule tensor_eqI)
    show "wf F"
      using prod_list_remove_unit[of "r - 1" nT] r lnT nTlast
      by (simp add: wf_def F_def T_def tabulate_def length_all_indices)
    show "wf (tabulate (remove_nth j ns) (\<lambda>idx. elem t (insert_nth j (idx ! dim) idx)))"
      by simp
    show "sizes F = sizes (tabulate (remove_nth j ns) (\<lambda>idx. elem t (insert_nth j (idx ! dim) idx)))"
      using nF by (simp add: F_def)
  next
    fix idx assume "valid_index (sizes F) idx"
    then have v: "valid_index (remove_nth j ns) idx"
      using nF by (simp add: F_def)
    have li: "length idx = r - 1"
      using valid_index_length[OF v] r by (simp add: r_def)
    have vT: "valid_index nT (idx @ [0])"
    proof (rule valid_indexI)
      show "length (idx @ [0]) = length nT" using li lnT r by simp
    next
      fix k assume "k < length nT"
      then have k: "k < r" using lnT by simp
      show "(idx @ [0]) ! k < nT ! k"
      proof (cases "k = r - 1")
        case True
        then show ?thesis using li nTlast by (simp add: nth_append)
      next
        case False
        then have k': "k < r - 1" using k by simp
        have "idx ! k < remove_nth j ns ! k"
          using valid_index_nth[OF v, of k] k' r by (simp add: r_def)
        moreover have "remove_nth j ns ! k = nT ! k"
          using nF[symmetric] k' r lnT by (simp add: nth_remove_nth)
        ultimately show ?thesis using k' li by (simp add: nth_append)
      qed
    qed
    have "elem F idx = elem (Tensor nT (data T)) (insert_nth (r - 1) 0 idx)"
      unfolding F_def using r lnT nTlast li by (intro elem_remove_unit) simp_all
    also have "insert_nth (r - 1) 0 idx = idx @ [0]"
      using li by (simp add: insert_nth_def)
    also have "Tensor nT (data T) = T"
      by (simp add: T_def tabulate_def)
    also have "elem T (idx @ [0]) = fT (idx @ [0])"
      unfolding T_def by (rule elem_tabulate[OF vT])
    also have "\<dots> = elem U (idx[dim := 0] @ [idx ! dim])"
      using li r by (simp add: fT_def nth_append list_update_append)
    finally have e1: "elem F idx = elem U (idx[dim := 0] @ [idx ! dim])" .
    have idim: "idx ! dim < s"
      using valid_index_nth[OF v, of dim] r by (simp add: nth_remove_nth dj s_def r_def)
    have vD: "valid_index (rest @ [s]) (remove_nth dim idx @ [idx ! dim])"
      unfolding rest_def using v idim
      by (intro valid_index_append valid_index_remove_nth) (simp_all add: valid_index_def)
    have "elem U (idx[dim := 0] @ [idx ! dim])
            = elem (Tensor (rest @ [s]) (data D)) (remove_nth dim (idx[dim := 0] @ [idx ! dim]))"
      unfolding U_def nU_def using r li lrest
      by (intro elem_insert_unit') (simp_all add: nth_append)
    also have "remove_nth dim (idx[dim := 0] @ [idx ! dim]) = remove_nth dim idx @ [idx ! dim]"
      using r li by (simp add: remove_nth_def)
    also have "Tensor (rest @ [s]) (data D) = D"
      by (simp add: D_def tabulate_def)
    also have "elem D (remove_nth dim idx @ [idx ! dim]) = fD (remove_nth dim idx @ [idx ! dim])"
      unfolding D_def by (rule elem_tabulate[OF vD])
    also have "\<dots> = elem t (insert_nth j (idx ! dim) (insert_nth dim (idx ! dim) (remove_nth dim idx)))"
      by (simp add: fD_def)
    also have "insert_nth dim (idx ! dim) (remove_nth dim idx) = idx"
      using r li by (intro insert_remove_nth) simp
    finally have e2: "elem U (idx[dim := 0] @ [idx ! dim]) = elem t (insert_nth j (idx ! dim) idx)" .
    show "elem F idx = elem (tabulate (remove_nth j ns) (\<lambda>idx. elem t (insert_nth j (idx ! dim) idx))) idx"
      using e1 e2 by (simp add: elem_tabulate[OF v])
  qed
  then show ?thesis
    using s1 s2 s3 s4 by (simp add: ns_def)
qed

lemma align_labels_repeated:
  assumes "c \<noteq> CHR '' ''" "label_dim ! label_of c = int dim" "dim < j" "j < rank operand"
    "sizes operand ! j = sizes operand ! dim"
  shows "align_labels i (c # cs) loi operand perm_shape label_dim j =
     align_labels i cs loi
       (tabulate (remove_nth j (sizes operand)) (\<lambda>idx. elem operand (insert_nth j (idx ! dim) idx)))
       perm_shape label_dim j"
proof -
  have "size_at operand (int j) = Inr (sizes operand ! j)"
    "size_at operand (int dim) = Inr (sizes operand ! dim)"
    using assms by (simp_all add: size_at_simp)
  then show ?thesis
    using assms by (simp add: Let_def repeated_label_diagonal[OF assms(3,4,5)])
qed


section \<open>einsum: the scan of an operand's labels\<close>

lemma firsts_Nil [simp]: "firsts [] = []"
  by (simp add: firsts_def)

lemma firsts_snoc:
  "firsts (pre @ [l]) = (if l \<in> set (firsts pre) then firsts pre else firsts pre @ [l])"
  by (simp add: firsts_def)

lemma set_firsts [simp]: "set (firsts ls) = set ls"
  by (induction ls rule: rev_induct) (auto simp: firsts_snoc)

lemma distinct_firsts [simp]: "distinct (firsts ls)"
  by (induction ls rule: rev_induct) (auto simp: firsts_snoc)

lemma length_firsts_le: "length (firsts ls) \<le> length ls"
  by (induction ls rule: rev_induct) (auto simp: firsts_snoc)

lemma index_of_snoc_mem: "x \<in> set xs \<Longrightarrow> index_of (xs @ ys) x = index_of xs x"
  by (simp add: index_of_append)

lemma index_of_snoc_new: "x \<notin> set xs \<Longrightarrow> index_of (xs @ [x]) x = length xs"
  by (simp add: index_of_append)

lemma scan_perm_snoc:
  "scan_perm loi (fs @ [l]) ps0 = (scan_perm loi fs ps0)[nat (loi ! l) := int (length fs)]"
proof -
  have "fold (\<lambda>k ps. ps[nat (loi ! ((fs @ [l]) ! k)) := int k]) [0..<length fs] ps0
          = fold (\<lambda>k ps. ps[nat (loi ! (fs ! k)) := int k]) [0..<length fs] ps0"
    by (rule fold_cong) (simp_all add: nth_append)
  then show ?thesis
    by (simp add: scan_perm_def)
qed

lemma scan_dim_snoc:
  assumes "l < total_labels" "l \<notin> set fs"
  shows "(scan_dim fs)[l := int (length fs)] = scan_dim (fs @ [l])"
proof (rule nth_equalityI)
  show "length ((scan_dim fs)[l := int (length fs)]) = length (scan_dim (fs @ [l]))"
    by (simp add: scan_dim_def)
  fix k assume "k < length ((scan_dim fs)[l := int (length fs)])"
  then have k: "k < total_labels"
    by (simp add: scan_dim_def)
  show "(scan_dim fs)[l := int (length fs)] ! k = scan_dim (fs @ [l]) ! k"
    using k assms by (cases "k = l") (auto simp: scan_dim_def index_of_append)
qed

lemma scan_dim_nth:
  "l < total_labels \<Longrightarrow> scan_dim fs ! l = (if l \<in> set fs then int (index_of fs l) else - 1)"
  by (simp add: scan_dim_def)

lemma valid_index_appendD:
  assumes "valid_index (ns @ ms) idx"
  shows "valid_index ns (take (length ns) idx)" "valid_index ms (drop (length ns) idx)"
proof -
  have l: "length idx = length ns + length ms"
    using valid_index_length[OF assms] by simp
  show "valid_index ns (take (length ns) idx)"
  proof (rule valid_indexI)
    show "length (take (length ns) idx) = length ns"
      using l by simp
    fix k assume k: "k < length ns"
    show "take (length ns) idx ! k < ns ! k"
      using valid_index_nth[OF assms, of k] k by (simp add: nth_append)
  qed
  show "valid_index ms (drop (length ns) idx)"
  proof (rule valid_indexI)
    show "length (drop (length ns) idx) = length ms"
      using l by simp
    fix k assume k: "k < length ms"
    show "drop (length ns) idx ! k < ms ! k"
      using valid_index_nth[OF assms, of "length ns + k"] k l by (simp add: nth_append)
  qed
qed

lemma scan_operand_new:
  assumes n: "l \<notin> set pre" and q: "length pre < rank t"
  shows "scan_operand t (pre @ [l]) = scan_operand t pre"
proof -
  let ?S = "sizes t" and ?fs = "firsts pre"
  have qS: "length pre < length ?S"
    using q by (simp add: rank_def)
  have f: "firsts (pre @ [l]) = ?fs @ [l]"
    using n by (simp add: firsts_snoc)
  have sz: "map (\<lambda>l'. ?S ! index_of (pre @ [l]) l') (?fs @ [l]) @ drop (length (pre @ [l])) ?S
          = map (\<lambda>l'. ?S ! index_of pre l') ?fs @ drop (length pre) ?S"
  proof -
    have "map (\<lambda>l'. ?S ! index_of (pre @ [l]) l') ?fs = map (\<lambda>l'. ?S ! index_of pre l') ?fs"
      by (rule map_cong) (simp_all add: index_of_append)
    moreover have "index_of (pre @ [l]) l = length pre"
      using n by (rule index_of_snoc_new)
    moreover have "drop (length pre) ?S = ?S ! length pre # drop (Suc (length pre)) ?S"
      using qS by (simp add: Cons_nth_drop_Suc)
    ultimately show ?thesis
      by simp
  qed
  have "tabulate (map (\<lambda>l'. ?S ! index_of pre l') ?fs @ drop (length pre) ?S)
          (\<lambda>idx. elem t (map (\<lambda>l'. idx ! index_of (?fs @ [l]) l') (pre @ [l]) @ drop (length (?fs @ [l])) idx))
        = tabulate (map (\<lambda>l'. ?S ! index_of pre l') ?fs @ drop (length pre) ?S)
          (\<lambda>idx. elem t (map (\<lambda>l'. idx ! index_of ?fs l') pre @ drop (length ?fs) idx))"
  proof (rule tabulate_cong)
    fix idx assume v: "valid_index (map (\<lambda>l'. ?S ! index_of pre l') ?fs @ drop (length pre) ?S) idx"
    have li: "length ?fs < length idx"
      using valid_index_length[OF v] qS by simp
    have a: "map (\<lambda>l'. idx ! index_of (?fs @ [l]) l') pre = map (\<lambda>l'. idx ! index_of ?fs l') pre"
      by (rule map_cong) (simp_all add: index_of_append)
    have b: "index_of (?fs @ [l]) l = length ?fs"
      using n by (intro index_of_snoc_new) simp
    have c: "drop (length ?fs) idx = idx ! length ?fs # drop (Suc (length ?fs)) idx"
      using li by (simp add: Cons_nth_drop_Suc)
    show "elem t (map (\<lambda>l'. idx ! index_of (?fs @ [l]) l') (pre @ [l]) @ drop (length (?fs @ [l])) idx)
        = elem t (map (\<lambda>l'. idx ! index_of ?fs l') pre @ drop (length ?fs) idx)"
      by (simp add: a b c)
  qed
  then show ?thesis
    unfolding scan_operand_def f sz .
qed

lemma scan_operand_repeated:
  assumes m: "l \<in> set pre" and q: "length pre < rank t"
    and eq: "sizes t ! length pre = sizes t ! index_of pre l"
  shows "tabulate (remove_nth (length (firsts pre)) (sizes (scan_operand t pre)))
           (\<lambda>idx. elem (scan_operand t pre)
                    (insert_nth (length (firsts pre)) (idx ! index_of (firsts pre) l) idx))
         = scan_operand t (pre @ [l])"
proof -
  let ?S = "sizes t" and ?fs = "firsts pre"
  let ?j = "length ?fs" and ?dim = "index_of ?fs l"
  let ?ext = "map (\<lambda>l'. ?S ! index_of pre l') ?fs"
  have qS: "length pre < length ?S"
    using q by (simp add: rank_def)
  have f: "firsts (pre @ [l]) = ?fs"
    using m by (simp add: firsts_snoc)
  have dm: "?dim < ?j" "?fs ! ?dim = l"
    using index_of_mem[of l ?fs] m by simp_all
  have dr: "drop (length pre) ?S = ?S ! length pre # drop (Suc (length pre)) ?S"
    using qS by (simp add: Cons_nth_drop_Suc)
  have szD: "sizes (scan_operand t pre) = ?ext @ drop (length pre) ?S"
    by (simp add: scan_operand_def)
  have rm: "remove_nth ?j (?ext @ drop (length pre) ?S) = ?ext @ drop (Suc (length pre)) ?S"
    by (simp add: remove_nth_def dr)
  have ext': "map (\<lambda>l'. ?S ! index_of (pre @ [l]) l') ?fs = ?ext"
    by (rule map_cong) (simp_all add: index_of_append)
  have "tabulate (?ext @ drop (Suc (length pre)) ?S)
           (\<lambda>idx. elem (scan_operand t pre) (insert_nth ?j (idx ! ?dim) idx))
        = tabulate (?ext @ drop (Suc (length pre)) ?S)
           (\<lambda>idx. elem t (map (\<lambda>l'. idx ! index_of ?fs l') (pre @ [l]) @ drop ?j idx))"
  proof (rule tabulate_cong)
    fix idx assume v: "valid_index (?ext @ drop (Suc (length pre)) ?S) idx"
    have li: "?j \<le> length idx"
      using valid_index_length[OF v] by simp
    have v1: "valid_index ?ext (take ?j idx)" and v2: "valid_index (drop (Suc (length pre)) ?S) (drop ?j idx)"
      using valid_index_appendD[OF v] by simp_all
    have d: "idx ! ?dim < ?S ! length pre"
      using valid_index_nth[OF v, of ?dim] dm eq by (simp add: nth_append)
    let ?idx' = "insert_nth ?j (idx ! ?dim) idx"
    have i': "?idx' = take ?j idx @ (idx ! ?dim) # drop ?j idx"
      by (simp add: insert_nth_def)
    have "valid_index (?ext @ drop (length pre) ?S) ?idx'"
      unfolding i' dr using v1 v2 d
      by (intro valid_index_append) (simp_all add: valid_index_Cons)
    then have "elem (scan_operand t pre) ?idx'
                 = elem t (map (\<lambda>l'. ?idx' ! index_of ?fs l') pre @ drop ?j ?idx')"
      unfolding scan_operand_def by (rule elem_tabulate)
    moreover have "map (\<lambda>l'. ?idx' ! index_of ?fs l') pre = map (\<lambda>l'. idx ! index_of ?fs l') pre"
    proof (rule map_cong[OF refl])
      fix l' assume "l' \<in> set pre"
      then have "index_of ?fs l' < ?j"
        using index_of_mem[of l' ?fs] by simp
      then show "?idx' ! index_of ?fs l' = idx ! index_of ?fs l'"
        using li by (simp add: i' nth_append)
    qed
    moreover have "drop ?j ?idx' = (idx ! ?dim) # drop ?j idx"
      using li by (simp add: i')
    ultimately show "elem (scan_operand t pre) ?idx'
        = elem t (map (\<lambda>l'. idx ! index_of ?fs l') (pre @ [l]) @ drop ?j idx)"
      by simp
  qed
  then show ?thesis
    unfolding scan_operand_def[of t "pre @ [l]"] f ext' szD rm by simp
qed

lemma labels_of_Cons:
  "labels_of (c # cs) = (if c = CHR '' '' then labels_of cs else label_of c # labels_of cs)"
  by (simp add: labels_of_def)

lemma labels_of_Nil [simp]: "labels_of [] = []"
  by (simp add: labels_of_def)

lemma rank_scan_operand:
  "length pre \<le> rank t \<Longrightarrow> rank (scan_operand t pre) = length (firsts pre) + (rank t - length pre)"
  by (simp add: scan_operand_def rank_def)

lemma align_labels_scan:
  fixes t :: "'a::comm_semiring_1 tensor"
  assumes "\<forall>c\<in>set cs. c \<noteq> CHR '' '' \<longrightarrow> label_of c < total_labels"
    and "length pre + length (labels_of cs) = rank t"
    and "\<forall>p<rank t. sizes t ! p = sizes t ! index_of (pre @ labels_of cs) ((pre @ labels_of cs) ! p)"
  shows "align_labels i cs loi (scan_operand t pre) (scan_perm loi (firsts pre) ps0)
           (scan_dim (firsts pre)) (length (firsts pre))
         = Inr (scan_operand t (pre @ labels_of cs),
                scan_perm loi (firsts (pre @ labels_of cs)) ps0,
                length (firsts (pre @ labels_of cs)))"
  using assms
proof (induction cs arbitrary: pre)
  case Nil
  show ?case by simp
next
  case (Cons c cs)
  show ?case
  proof (cases "c = CHR '' ''")
    case True
    then show ?thesis
      using Cons.IH[of pre] Cons.prems by (simp add: labels_of_Cons)
  next
    case False
    define l where "l = label_of c"
    have lo: "labels_of (c # cs) = l # labels_of cs"
      using False by (simp add: labels_of_Cons l_def)
    have lt: "l < total_labels"
      using Cons.prems(1) False by (simp add: l_def)
    have q: "length pre < rank t"
      using Cons.prems(2) by (simp add: lo)
    have app: "pre @ labels_of (c # cs) = (pre @ [l]) @ labels_of cs"
      by (simp add: lo)
    have IH: "align_labels i cs loi (scan_operand t (pre @ [l])) (scan_perm loi (firsts (pre @ [l])) ps0)
           (scan_dim (firsts (pre @ [l]))) (length (firsts (pre @ [l])))
         = Inr (scan_operand t (pre @ labels_of (c # cs)),
                scan_perm loi (firsts (pre @ labels_of (c # cs))) ps0,
                length (firsts (pre @ labels_of (c # cs))))"
      unfolding app using Cons.prems by (intro Cons.IH) (simp_all add: lo)
    show ?thesis
    proof (cases "l \<in> set pre")
      case True
      let ?fs = "firsts pre"
      have f: "firsts (pre @ [l]) = ?fs"
        using True by (simp add: firsts_snoc)
      have dm: "index_of ?fs l < length ?fs"
        using index_of_mem[of l ?fs] True by simp
      have ld: "scan_dim ?fs ! l = int (index_of ?fs l)"
        using lt True by (simp add: scan_dim_nth)
      have ne: "scan_dim ?fs ! label_of c \<noteq> - 1"
        using ld by (simp add: l_def)
      have eq: "sizes t ! length pre = sizes t ! index_of pre l"
        using Cons.prems(3) q True by (auto simp: lo index_of_append nth_append dest!: spec[of _ "length pre"])
      have jr: "length ?fs < rank (scan_operand t pre)"
        using q by (simp add: rank_scan_operand)
      have fl: "?fs ! index_of ?fs l = l"
        using index_of_mem[of l ?fs] True by simp
      have qS: "length pre < length (sizes t)"
        using q by (simp add: rank_def)
      have "sizes (scan_operand t pre) ! length ?fs = sizes t ! length pre"
        using qS by (simp add: scan_operand_def nth_append)
      moreover have "sizes (scan_operand t pre) ! index_of ?fs l = sizes t ! index_of pre l"
        using dm fl by (simp add: scan_operand_def nth_append)
      ultimately have sz: "sizes (scan_operand t pre) ! length ?fs = sizes (scan_operand t pre) ! index_of ?fs l"
        using eq by simp
      have "align_labels i (c # cs) loi (scan_operand t pre) (scan_perm loi ?fs ps0) (scan_dim ?fs) (length ?fs)
          = align_labels i cs loi
              (tabulate (remove_nth (length ?fs) (sizes (scan_operand t pre)))
                 (\<lambda>idx. elem (scan_operand t pre) (insert_nth (length ?fs) (idx ! index_of ?fs l) idx)))
              (scan_perm loi ?fs ps0) (scan_dim ?fs) (length ?fs)"
        using False ld dm jr sz by (intro align_labels_repeated) (simp_all add: l_def)
      then show ?thesis
        using IH by (simp add: scan_operand_repeated[OF True q eq] f)
    next
      case False
      note nl = this
      let ?fs = "firsts pre"
      have f: "firsts (pre @ [l]) = ?fs @ [l]"
        using nl by (simp add: firsts_snoc)
      have ld: "scan_dim ?fs ! label_of c = - 1"
        using lt nl by (simp add: scan_dim_nth l_def)
      have "align_labels i (c # cs) loi (scan_operand t pre) (scan_perm loi ?fs ps0) (scan_dim ?fs) (length ?fs)
          = align_labels i cs loi (scan_operand t pre)
              ((scan_perm loi ?fs ps0)[nat (loi ! l) := int (length ?fs)])
              ((scan_dim ?fs)[l := int (length ?fs)]) (length ?fs + 1)"
        using \<open>c \<noteq> CHR '' ''\<close> ld by (simp add: l_def)
      also have "\<dots> = align_labels i cs loi (scan_operand t (pre @ [l])) (scan_perm loi (firsts (pre @ [l])) ps0)
           (scan_dim (firsts (pre @ [l]))) (length (firsts (pre @ [l])))"
        using scan_operand_new[OF nl q] scan_dim_snoc[OF lt, of ?fs] nl
        by (simp add: f scan_perm_snoc)
      finally show ?thesis
        using IH by simp
    qed
  qed
qed


lemma scan_operand_Nil: "wf t \<Longrightarrow> scan_operand t [] = t"
  by (simp add: scan_operand_def tabulate_elem)

lemma scan_operand_all:
  assumes "length ls = rank t"
  shows "scan_operand t ls = label_diagonal t ls"
proof -
  have "tabulate (map (\<lambda>l. sizes t ! index_of ls l) (firsts ls))
          (\<lambda>idx. elem t (map (\<lambda>l. idx ! index_of (firsts ls) l) ls @ drop (length (firsts ls)) idx))
        = tabulate (map (\<lambda>l. sizes t ! index_of ls l) (firsts ls))
          (\<lambda>idx. elem t (map (\<lambda>l. idx ! index_of (firsts ls) l) ls))"
  proof (rule tabulate_cong)
    fix idx assume "valid_index (map (\<lambda>l. sizes t ! index_of ls l) (firsts ls)) idx"
    then have "length idx = length (firsts ls)"
      using valid_index_length by fastforce
    then show "elem t (map (\<lambda>l. idx ! index_of (firsts ls) l) ls @ drop (length (firsts ls)) idx)
             = elem t (map (\<lambda>l. idx ! index_of (firsts ls) l) ls)"
      by simp
  qed
  then show ?thesis
    using assms by (simp add: scan_operand_def label_diagonal_def rank_def)
qed

lemma scan_dim_Nil: "scan_dim [] = replicate total_labels (- 1)"
  by (simp add: scan_dim_def map_replicate_const)

lemma align_labels_diagonal:
  fixes operand :: "'a::comm_semiring_1 tensor"
  assumes "wf operand"
    and "\<forall>c\<in>set cs. c \<noteq> CHR '' '' \<longrightarrow> label_of c < total_labels"
    and "length (labels_of cs) = rank operand"
    and "\<forall>p<rank operand. sizes operand ! p = sizes operand ! index_of (labels_of cs) (labels_of cs ! p)"
  shows "align_labels i cs loi operand ps0 (replicate total_labels (- 1)) 0
         = Inr (label_diagonal operand (labels_of cs),
                scan_perm loi (firsts (labels_of cs)) ps0,
                length (firsts (labels_of cs)))"
  using align_labels_scan[of cs "[]" operand i loi ps0] assms
  by (simp add: scan_operand_Nil scan_operand_all scan_dim_Nil scan_perm_def)

lemma is_label_bound: "is_label c \<Longrightarrow> label_of c < total_labels"
  unfolding is_label_def label_of_def total_labels_def by linarith

lemma wf_label_diagonal [simp]: "wf (label_diagonal t ls)"
  by (simp add: label_diagonal_def)

lemma firsts_append:
  "firsts (xs @ ys) = fold (\<lambda>l acc. if l \<in> set acc then acc else acc @ [l]) ys (firsts xs)"
  by (simp add: firsts_def)

lemma firsts_distinct: "distinct ls \<Longrightarrow> firsts ls = ls"
  by (induction ls rule: rev_induct) (simp_all add: firsts_snoc)

lemma firsts_one_pair:
  assumes "p < q" "q < length ls" "ls ! q = ls ! p" "distinct (remove_nth q ls)"
  shows "firsts ls = remove_nth q ls"
proof -
  let ?xs = "take q ls" and ?ys = "drop (Suc q) ls"
  have ls: "ls = (?xs @ [ls ! q]) @ ?ys"
    using assms(2) by (simp add: Cons_nth_drop_Suc)
  have "ls ! q \<in> set ?xs"
    using assms(1,2,3) by (auto simp: in_set_conv_nth intro!: exI[of _ p])
  then have "firsts (?xs @ [ls ! q]) = firsts ?xs"
    by (simp add: firsts_snoc)
  then have "firsts ((?xs @ [ls ! q]) @ ?ys) = firsts (?xs @ ?ys)"
    by (simp only: firsts_append)
  then show ?thesis
    using ls firsts_distinct[OF assms(4)] by (simp add: remove_nth_def)
qed

lemma index_of_first:
  "k < length xs \<Longrightarrow> xs ! k = x \<Longrightarrow> \<forall>i<k. xs ! i \<noteq> x \<Longrightarrow> index_of xs x = k"
proof (induction xs arbitrary: k)
  case Nil
  then show ?case by simp
next
  case (Cons y ys)
  show ?case
  proof (cases k)
    case 0
    then show ?thesis using Cons.prems by simp
  next
    case (Suc k')
    have "y \<noteq> x"
      using Cons.prems(3) Suc by auto
    moreover have "index_of ys x = k'"
      using Cons.prems Suc by (intro Cons.IH) auto
    ultimately show ?thesis
      using Suc by simp
  qed
qed

lemma label_diagonal_one_pair:
  assumes pq: "p < q" "q < length ls" and eq: "ls ! q = ls ! p"
    and d: "distinct (remove_nth q ls)" and r: "length ls = rank t"
  shows "label_diagonal t ls
           = tabulate (remove_nth q (sizes t)) (\<lambda>idx. elem t (insert_nth q (idx ! p) idx))"
proof -
  let ?rm = "remove_nth q ls" and ?S = "sizes t"
  have f: "firsts ls = ?rm"
    using pq eq d by (rule firsts_one_pair)
  have lS: "length ?S = length ls"
    using r by (simp add: rank_def)
  have lrm: "length ?rm = length ls - 1"
    using pq by simp
  have rmn: "?rm ! k = ls ! (if k < q then k else Suc k)" if "k < length ls - 1" for k
    using that pq by (simp add: nth_remove_nth)
  have neq: "ls ! a \<noteq> ls ! b" if "a < length ls" "b < length ls" "a \<noteq> b" "a \<noteq> q" "b \<noteq> q" for a b
  proof -
    define a' where "a' = (if a < q then a else a - 1)"
    define b' where "b' = (if b < q then b else b - 1)"
    have "a' < length ?rm" "b' < length ?rm" "a' \<noteq> b'"
      using that pq by (auto simp: a'_def b'_def)
    then have "?rm ! a' \<noteq> ?rm ! b'"
      using d by (simp add: nth_eq_iff_index_eq)
    moreover have "?rm ! a' = ls ! a" "?rm ! b' = ls ! b"
      using that pq by (auto simp: a'_def b'_def nth_remove_nth)
    ultimately show ?thesis
      by simp
  qed
  have first: "index_of ls (ls ! k) = k" if "k < length ls" "k \<noteq> q" for k
  proof (rule index_of_first)
    show "k < length ls" "ls ! k = ls ! k"
      using that by simp_all
    show "\<forall>i<k. ls ! i \<noteq> ls ! k"
    proof (intro allI impI)
      fix i assume i: "i < k"
      show "ls ! i \<noteq> ls ! k"
      proof (cases "i = q")
        case True
        then have "p \<noteq> k" "p < length ls"
          using pq i by simp_all
        then have "ls ! p \<noteq> ls ! k"
          using that pq by (intro neq) simp_all
        then show ?thesis
          using True eq by simp
      next
        case False
        then show ?thesis
          using that i by (intro neq) simp_all
      qed
    qed
  qed
  have sz: "map (\<lambda>l. ?S ! index_of ls l) ?rm = remove_nth q ?S"
  proof (rule nth_equalityI)
    show "length (map (\<lambda>l. ?S ! index_of ls l) ?rm) = length (remove_nth q ?S)"
      using pq lS by simp
    fix k assume "k < length (map (\<lambda>l. ?S ! index_of ls l) ?rm)"
    then have k: "k < length ls - 1"
      using lrm by simp
    show "map (\<lambda>l. ?S ! index_of ls l) ?rm ! k = remove_nth q ?S ! k"
      using k pq lS lrm rmn[OF k] first[of "if k < q then k else Suc k"]
      by (auto simp: nth_remove_nth)
  qed
  have "tabulate (remove_nth q ?S) (\<lambda>idx. elem t (map (\<lambda>l. idx ! index_of ?rm l) ls))
      = tabulate (remove_nth q ?S) (\<lambda>idx. elem t (insert_nth q (idx ! p) idx))"
  proof (rule tabulate_cong)
    fix idx assume v: "valid_index (remove_nth q ?S) idx"
    have li: "length idx = length ls - 1"
      using valid_index_length[OF v] pq lS by simp
    have "map (\<lambda>l. idx ! index_of ?rm l) ls = insert_nth q (idx ! p) idx"
    proof (rule nth_equalityI)
      show "length (map (\<lambda>l. idx ! index_of ?rm l) ls) = length (insert_nth q (idx ! p) idx)"
        using li pq by simp
      fix k assume "k < length (map (\<lambda>l. idx ! index_of ?rm l) ls)"
      then have k: "k < length ls"
        by simp
      have io: "index_of ?rm (?rm ! m) = m" if "m < length ls - 1" for m
        using d that lrm by (simp add: index_of_nth)
      consider "k < q" | "k = q" | "q < k"
        by linarith
      then show "map (\<lambda>l. idx ! index_of ?rm l) ls ! k = insert_nth q (idx ! p) idx ! k"
      proof cases
        case 1
        then have "index_of ?rm (ls ! k) = k"
          using io[of k] rmn[of k] pq by simp
        then show ?thesis
          using 1 k li pq by (simp add: nth_insert_nth)
      next
        case 2
        have "index_of ?rm (ls ! p) = p"
          using io[of p] rmn[of p] pq by simp
        then show ?thesis
          using 2 k li pq eq by (simp add: nth_insert_nth)
      next
        case 3
        have k1: "k - 1 < length ls - 1" "\<not> k - 1 < q" "Suc (k - 1) = k"
          using 3 k by simp_all
        have "?rm ! (k - 1) = ls ! k"
          using rmn[OF k1(1)] k1(2,3) by simp
        then have "index_of ?rm (ls ! k) = k - 1"
          using io[OF k1(1)] by simp
        then show ?thesis
          using 3 k li pq by (simp add: nth_insert_nth)
      qed
    qed
    then show "elem t (map (\<lambda>l. idx ! index_of ?rm l) ls) = elem t (insert_nth q (idx ! p) idx)"
      by simp
  qed
  then show ?thesis
    by (simp add: label_diagonal_def f sz)
qed

section \<open>Ranks and shapes along the einsum pipeline\<close>














section \<open>einsum: the matrix product\<close>

lemma plan_matmul:
  assumes "sizes A = [n, n]" "sizes B = [n, n]"
  shows "\<exists>llo. einsum_plan ''ij,jk->ik'' [A, B] = Inr (plan_ijjk llo)"
  using assms
  by (simp add: plan_ijjk_def einsum_plan_def lhs_of_def is_label_def label_of_def size_at_simp
        rank_def implicit_output_step_def contraction_step_def eval_list)

lemma align_matmul_left:
  assumes "sizes A = [n, n]"
  shows "align_operand (plan_ijjk llo) 0 ''ij'' A
     = Inr (tabulate [n, 1, n] (\<lambda>idx. elem A [idx ! 0, idx ! 2]))"
proof -
  have "align_operand (plan_ijjk llo) 0 ''ij'' A
        = permute (Tensor [n, n, 1] (data A)) (map int [0, 2, 1])"
    using assms
    by (simp add: plan_ijjk_def align_operand_def is_label_def label_of_def eval_list unsqueeze_last)
  also have "\<dots> = Inr (tabulate [n, 1, n]
      (\<lambda>idx. elem (Tensor [n, n, 1] (data A)) (permute_index [0, 2, 1] idx)))"
    by (subst permute_nat) (simp_all add: rank_def)
  also have "\<dots> = Inr (tabulate [n, 1, n] (\<lambda>idx. elem A [idx ! 0, idx ! 2]))"
    using assms
    by (auto intro!: tabulate_cong
          simp: valid_index_Cons valid_index_Nil permute_index_def index_of_def elem_def)
  finally show ?thesis .
qed

lemma align_matmul_right:
  assumes "sizes B = [n, n]"
  shows "align_operand (plan_ijjk llo) (Suc 0) ''jk'' B
     = Inr (tabulate [1, n, n] (\<lambda>idx. elem B [idx ! 2, idx ! 1]))"
proof -
  have "align_operand (plan_ijjk llo) (Suc 0) ''jk'' B
        = permute (Tensor [n, n, 1] (data B)) (map int [2, 1, 0])"
    using assms
    by (simp add: plan_ijjk_def align_operand_def is_label_def label_of_def eval_list unsqueeze_last)
  also have "\<dots> = Inr (tabulate [1, n, n]
      (\<lambda>idx. elem (Tensor [n, n, 1] (data B)) (permute_index [2, 1, 0] idx)))"
    by (subst permute_nat) (simp_all add: rank_def)
  also have "\<dots> = Inr (tabulate [1, n, n] (\<lambda>idx. elem B [idx ! 2, idx ! 1]))"
    using assms
    by (auto intro!: tabulate_cong
          simp: valid_index_Cons valid_index_Nil permute_index_def index_of_def elem_def)
  finally show ?thesis .
qed

lemma einsum_matmul_tabulate:
  fixes A B :: "'a::comm_semiring_1 tensor"
  assumes A: "sizes A = [n, n]" and B: "sizes B = [n, n]"
  shows "einsum ''ij,jk->ik'' [A, B] =
     Inr (tabulate [n, n] (\<lambda>idx. \<Sum>j<n. elem A [idx ! 0, j] * elem B [j, idx ! 1]))"
proof -
  obtain llo where pl: "einsum_plan ''ij,jk->ik'' [A, B] = Inr (plan_ijjk llo)"
    using plan_matmul[OF A B] by blast
  let ?a = "tabulate [n, 1, n] (\<lambda>idx. elem A [idx ! 0, idx ! 2])"
  let ?b = "tabulate [1, n, n] (\<lambda>idx. elem B [idx ! 2, idx ! 1])"
  let ?p = "tabulate [n, n, n] (\<lambda>idx. elem A [idx ! 0, idx ! 2] * elem B [idx ! 2, idx ! 1])"
  have al: "align_operands (plan_ijjk llo) 0 [''ij'', ''jk''] [A, B] = Inr [?a, ?b]"
    by (simp add: align_matmul_left[OF A] align_matmul_right[OF B])
  have "mul ?a ?b = Inr (tabulate (broadcast_sizes [n, 1, n] [1, n, n]) (\<lambda>idx.
      elem ?a (broadcast_index [n, 1, n] idx) * elem ?b (broadcast_index [1, n, n] idx)))"
    by (subst mul_same_rank) (simp_all add: compatible_def)
  also have "\<dots> = Inr ?p"
    by (auto intro!: tabulate_cong simp: broadcast_sizes_def valid_index_Cons valid_index_Nil
          broadcast_index_def elem_tabulate)
  finally have m: "mul ?a ?b = Inr ?p" .
  let ?r = "sum_keep ?p 2"
  let ?res = "tabulate [n, n] (\<lambda>idx. \<Sum>j<n. elem A [idx ! 0, j] * elem B [j, idx ! 1])"
  have s1: "sum_dimlist ?p [2] False = Inr (Tensor [n, n] (data ?r))"
    by (simp add: sum_dimlist_def dim_list_to_bitset_def maybe_wrap_dim_def rank_def drop_axes_def
          replicate_numeral list_update_Cons_numeral Let_def sum_keep_def numeral_2_eq_2)
  have s2: "Tensor [n, n] (data ?r) = ?res"
  proof (rule tensor_eqI)
    show "wf (Tensor [n, n] (data ?r))"
      by (simp add: wf_def sum_keep_def tabulate_def length_all_indices)
    show "wf ?res" by simp
    show "sizes (Tensor [n, n] (data ?r)) = sizes ?res" by simp
    fix idx assume "valid_index (sizes (Tensor [n, n] (data ?r))) idx"
    then obtain i k where idx: "idx = [i, k]" and i: "i < n" and k: "k < n"
      by (auto simp: valid_index_Cons valid_index_Nil)
    have "elem (Tensor [n, n] (data ?r)) [i, k] = elem ?r [i, k, 0]"
      by (simp add: elem_def sum_keep_def)
    also have "\<dots> = sum_list (map (\<lambda>c. elem ?p [i, k, c]) [0..<n])"
      using i k
      by (simp add: sum_keep_def elem_tabulate valid_index_Cons valid_index_Nil numeral_2_eq_2)
    also have "\<dots> = (\<Sum>j<n. elem ?p [i, k, j])"
      by (rule sum_list_upt_sum)
    also have "\<dots> = (\<Sum>j<n. elem A [i, j] * elem B [j, k])"
      using i k
      by (intro sum.cong)
         (simp_all add: elem_tabulate valid_index_Cons valid_index_Nil numeral_2_eq_2)
    also have "\<dots> = elem ?res [i, k]"
      using i k by (simp add: elem_tabulate valid_index_Cons valid_index_Nil)
    finally show "elem (Tensor [n, n] (data ?r)) idx = elem ?res idx"
      by (simp add: idx)
  qed
  have s: "sum_dimlist ?p [2] False = Inr ?res"
    using s1 s2 by simp
  show ?thesis
    using pl al m s
    by (simp add: einsum_def einsum_compute_def plan_ijjk_def)
qed

text \<open>
  C1. For square matrices \<open>A\<close> and \<open>B\<close> of the same size \<open>n\<close>,
  \<open>einsum "ij,jk->ik" [A, B]\<close> returns an \<open>n\<close> by \<open>n\<close> matrix whose entry at \<open>(i, k)\<close> is
  the sum over \<open>j\<close> of \<open>A[i,j] * B[j,k]\<close>; it is the result of the matrix-multiply
  primitive \<open>mm\<close>.
\<close>

theorem einsum_matrix_product:
  fixes A B :: "'a::comm_semiring_1 tensor"
  assumes "sizes A = [n, n]" and "sizes B = [n, n]"
  shows "\<exists>r. einsum ''ij,jk->ik'' [A, B] = Inr r \<and> mm A B = Inr r \<and> sizes r = [n, n] \<and> wf r \<and>
           (\<forall>i<n. \<forall>k<n. elem r [i, k] = (\<Sum>j<n. elem A [i, j] * elem B [j, k]))"
proof -
  let ?r = "tabulate [n, n] (\<lambda>idx. \<Sum>j<n. elem A [idx ! 0, j] * elem B [j, idx ! 1])"
  have "einsum ''ij,jk->ik'' [A, B] = Inr ?r"
    by (rule einsum_matmul_tabulate[OF assms])
  moreover have "mm A B = Inr ?r"
    using assms by (simp add: mm_def sum_list_upt_sum)
  moreover have "\<forall>i<n. \<forall>k<n. elem ?r [i, k] = (\<Sum>j<n. elem A [i, j] * elem B [j, k])"
    by (simp add: elem_tabulate valid_index_Cons valid_index_Nil)
  ultimately show ?thesis by simp
qed

theorem einsum_matrix_product_witness:
  "sizes (Tensor [2, 2] [1, 2, 3, 4 :: int]) = [2, 2] \<and>
   sizes (Tensor [2, 2] [5, 6, 7, 8 :: int]) = [2, 2] \<and>
   einsum ''ij,jk->ik'' [Tensor [2, 2] [1, 2, 3, 4 :: int], Tensor [2, 2] [5, 6, 7, 8]]
     = Inr (Tensor [2, 2] [19, 22, 43, 50])"
proof -
  have "mm (Tensor [2, 2] [1, 2, 3, 4 :: int]) (Tensor [2, 2] [5, 6, 7, 8])
        = Inr (Tensor [2, 2] [19, 22, 43, 50])"
    by code_simp
  then show ?thesis
    using einsum_matrix_product[of "Tensor [2, 2] [1, 2, 3, 4 :: int]" 2 "Tensor [2, 2] [5, 6, 7, 8]"]
    by auto
qed

section \<open>einsum: operand and rank errors\<close>

lemma parse_labels_count:
  "parse_labels operand i cs lc llo count = Inr (lc', llo', c') \<Longrightarrow> c' = count + num_labels cs"
proof (induction cs arbitrary: lc llo count)
  case Nil
  then show ?case by (simp add: num_labels_def)
next
  case (Cons c cs)
  show ?case
  proof (cases "c = CHR '' ''")
    case True
    then show ?thesis using Cons by (simp add: num_labels_def)
  next
    case False
    then obtain llo2 where "parse_labels operand i cs (lc[label_of c := lc ! label_of c + 1])
            llo2 (count + 1) = Inr (lc', llo', c')"
      using Cons.prems by (auto simp: bindE_eq_Inr split: if_splits)
    from Cons.IH[OF this] show ?thesis using False by (simp add: num_labels_def)
  qed
qed

lemma parse_labels_ok:
  "valid_labels cs \<Longrightarrow> count + num_labels cs \<le> rank operand \<Longrightarrow>
     \<exists>lc' llo'. parse_labels operand i cs lc llo count = Inr (lc', llo', count + num_labels cs)"
proof (induction cs arbitrary: lc llo count)
  case Nil
  then show ?case by (simp add: num_labels_def)
next
  case (Cons c cs)
  show ?case
  proof (cases "c = CHR '' ''")
    case True
    then show ?thesis using Cons by (simp add: num_labels_def valid_labels_def)
  next
    case False
    have lab: "is_label c" and v: "valid_labels cs"
      using Cons.prems(1) False by (simp_all add: valid_labels_def)
    have cnt: "count < rank operand" "(count + 1) + num_labels cs \<le> rank operand"
      using Cons.prems(2) False by (simp_all add: num_labels_def)
    have sz: "size_at operand (int count) = Inr (sizes operand ! count)"
      using cnt(1) by (simp add: size_at_simp)
    from Cons.IH[OF v cnt(2)] show ?thesis
      using False lab sz by (simp add: num_labels_def)
  qed
qed

lemma parse_operands_success:
  "parse_operands ops ols i0 lc llo = Inr x \<Longrightarrow> length ols = length ops \<Longrightarrow>
     \<forall>m<length ops. num_labels (ols ! m) = rank (ops ! m)"
proof (induction ops arbitrary: ols i0 lc llo)
  case Nil
  then show ?case by simp
next
  case (Cons operand operands)
  then obtain labels operand_labels where ols: "ols = labels # operand_labels"
    by (cases ols) auto
  from Cons.prems(1) obtain lc' llo' c' where
    p: "parse_labels operand i0 labels lc llo 0 = Inr (lc', llo', c')"
    and c: "c' = rank operand"
    and rest: "parse_operands operands operand_labels (i0 + 1) lc' llo' = Inr x"
    unfolding ols by (auto simp: bindE_eq_Inr split: if_splits)
  have "c' = num_labels labels" using parse_labels_count[OF p] by simp
  moreover have "\<forall>m<length operands. num_labels (operand_labels ! m) = rank (operands ! m)"
    using Cons.IH[OF rest] Cons.prems(2) ols by simp
  ultimately show ?case using c ols by (auto simp: nth_Cons split: nat.splits)
qed

lemma parse_operands_rank_mismatch:
  "length ols = length ops \<Longrightarrow> k < length ops \<Longrightarrow>
   (\<forall>m\<le>k. valid_labels (ols ! m)) \<Longrightarrow> (\<forall>m<k. num_labels (ols ! m) = rank (ops ! m)) \<Longrightarrow>
   num_labels (ols ! k) < rank (ops ! k) \<Longrightarrow>
   parse_operands ops ols i0 lc llo = Inl (EinsumSubscriptCount (num_labels (ols ! k)) (rank (ops ! k)) (i0 + k))"
proof (induction ops arbitrary: ols i0 lc llo k)
  case Nil
  then show ?case by simp
next
  case (Cons operand operands)
  then obtain labels operand_labels where ols: "ols = labels # operand_labels"
    by (cases ols) auto
  have v: "valid_labels labels" using Cons.prems(3) ols by (auto dest: spec[of _ 0])
  show ?case
  proof (cases k)
    case 0
    have lt: "num_labels labels < rank operand" using Cons.prems(5) 0 ols by simp
    then obtain lc' llo' where
      "parse_labels operand i0 labels lc llo 0 = Inr (lc', llo', 0 + num_labels labels)"
      using parse_labels_ok[OF v, of 0 operand i0 lc llo] by auto
    then show ?thesis using lt 0 ols by simp
  next
    case (Suc k')
    have eq: "num_labels labels = rank operand"
      using Cons.prems(4) Suc ols by (auto dest: spec[of _ 0])
    obtain lc' llo' where
      p: "parse_labels operand i0 labels lc llo 0 = Inr (lc', llo', 0 + num_labels labels)"
      using parse_labels_ok[OF v, of 0 operand i0 lc llo] eq by auto
    have "parse_operands operands operand_labels (i0 + 1) lc' llo'
          = Inl (EinsumSubscriptCount (num_labels (operand_labels ! k')) (rank (operands ! k')) (i0 + 1 + k'))"
    proof (rule Cons.IH)
      show "length operand_labels = length operands" using Cons.prems(1) ols by simp
      show "k' < length operands" using Cons.prems(2) Suc by simp
      show "\<forall>m\<le>k'. valid_labels (operand_labels ! m)"
        using Cons.prems(3) Suc ols by (auto dest: spec[of _ "Suc _"])
      show "\<forall>m<k'. num_labels (operand_labels ! m) = rank (operands ! m)"
        using Cons.prems(4) Suc ols by (auto dest: spec[of _ "Suc _"])
      show "num_labels (operand_labels ! k') < rank (operands ! k')"
        using Cons.prems(5) Suc ols by simp
    qed
    then show ?thesis using p eq Suc ols by simp
  qed
qed

lemma einsum_plan_success:
  assumes "einsum_plan equation operands = Inr pl"
  shows "length (label_groups equation) = length operands \<and>
         (\<forall>m<length operands. num_labels (label_groups equation ! m) = rank (operands ! m))"
proof -
  from assms have len: "length (label_groups equation) = length operands"
    by (auto simp: einsum_plan_def label_groups_def Let_def split: if_splits)
  from assms obtain x where
    "parse_operands operands (label_groups equation) 0 (replicate total_labels 0)
        (replicate total_labels (2 ^ 64 - 1)) = Inr x"
    by (auto simp: einsum_plan_def label_groups_def Let_def bindE_eq_Inr split: if_splits)
  from parse_operands_success[OF this len] len show ?thesis by simp
qed

text \<open>
  The failures of \<open>einsum\<close> on operands that do not fit the equation.
  \<open>einsum "ij,jk->ik" [A]\<close> fails with the operand-count error. When the equation has
  as many label groups as there are operands, the groups up to operand \<open>k\<close> hold only
  labels \<open>a..z\<close> and spaces, every operand before \<open>k\<close> has as many labels as axes and
  operand \<open>k\<close> has fewer labels than axes, \<open>einsum\<close> fails with the subscript-count
  (rank-mismatch) error for operand \<open>k\<close>. Whenever the number of labels of some operand
  differs from its number of axes, no result is produced.
\<close>

lemma einsum_operand_errors:
  fixes A :: "'a::comm_semiring_1 tensor" and operands :: "'a tensor list"
  shows "einsum ''ij,jk->ik'' [A] = Inl (EinsumOperandCount 2 1) \<and>
    (length (label_groups equation) = length operands \<and> k < length operands \<and>
     (\<forall>m\<le>k. valid_labels (label_groups equation ! m)) \<and>
     (\<forall>m<k. num_labels (label_groups equation ! m) = rank (operands ! m)) \<and>
     num_labels (label_groups equation ! k) < rank (operands ! k) \<longrightarrow>
       einsum equation operands =
         Inl (EinsumSubscriptCount (num_labels (label_groups equation ! k)) (rank (operands ! k)) k)) \<and>
    ((\<exists>m<length operands. num_labels (label_groups equation ! m) \<noteq> rank (operands ! m)) \<longrightarrow>
       (\<exists>e. einsum equation operands = Inl e))"
proof (intro conjI impI)
  show "einsum ''ij,jk->ik'' [A] = Inl (EinsumOperandCount 2 1)"
    by (simp add: einsum_def einsum_plan_def lhs_of_def)
next
  assume a: "length (label_groups equation) = length operands \<and> k < length operands \<and>
     (\<forall>m\<le>k. valid_labels (label_groups equation ! m)) \<and>
     (\<forall>m<k. num_labels (label_groups equation ! m) = rank (operands ! m)) \<and>
     num_labels (label_groups equation ! k) < rank (operands ! k)"
  then have ne: "operands \<noteq> []" by auto
  have "parse_operands operands (label_groups equation) 0 (replicate total_labels 0)
          (replicate total_labels (2 ^ 64 - 1))
        = Inl (EinsumSubscriptCount (num_labels (label_groups equation ! k)) (rank (operands ! k)) (0 + k))"
    using a by (intro parse_operands_rank_mismatch) simp_all
  then show "einsum equation operands =
         Inl (EinsumSubscriptCount (num_labels (label_groups equation ! k)) (rank (operands ! k)) k)"
    using a ne by (simp add: einsum_def einsum_plan_def label_groups_def Let_def)
next
  assume m: "\<exists>m<length operands. num_labels (label_groups equation ! m) \<noteq> rank (operands ! m)"
  show "\<exists>e. einsum equation operands = Inl e"
  proof (cases "einsum_plan equation operands")
    case (Inl e)
    then show ?thesis by (simp add: einsum_def)
  next
    case (Inr pl)
    from einsum_plan_success[OF this] m show ?thesis by auto
  qed
qed

lemma einsum_operand_errors_example:
  "einsum ''iz,jk->ik'' [Tensor [2, 2, 2] [1, 2, 3, 4, 5, 6, 7, 8 :: int], Tensor [2, 2] [5, 6, 7, 8]]
     = Inl (EinsumSubscriptCount 2 3 0) \<and>
   einsum ''ij,jk->ik'' [Tensor [2, 2] [5, 6, 7, 8 :: int]] = Inl (EinsumOperandCount 2 1)"
  using einsum_operand_errors[of "Tensor [2, 2] [5, 6, 7, 8 :: int]" "''iz,jk->ik''"
      "[Tensor [2, 2, 2] [1, 2, 3, 4, 5, 6, 7, 8 :: int], Tensor [2, 2] [5, 6, 7, 8]]" 0]
  by (simp add: label_groups_def lhs_of_def valid_labels_def is_label_def num_labels_def rank_def)

text \<open>
  C10. The claim asks for the rank-mismatch error whenever an operand's number of labels
  differs from its number of axes. With \<open>"iz,jk->ik"\<close> and a first operand of rank 1
  (two labels for one axis) \<open>einsum\<close> produces no result, but the failure is that of
  \<^verbatim>\<open>operand.size(1)\<close>, read at line 177 for the second label before the count is
  compared with the rank at line 184: it is not the subscript-count error that the check
  at line 184 raises for an operand with fewer labels than axes.
\<close>

theorem einsum_more_labels_than_axes:
  "num_labels (label_groups ''iz,jk->ik'' ! 0) \<noteq> rank (Tensor [2] [1, 2 :: int]) \<and>
   einsum ''iz,jk->ik'' [Tensor [2] [1, 2 :: int], Tensor [2, 2] [5, 6, 7, 8]] = Inl DimOutOfRange \<and>
   einsum ''iz,jk->ik'' [Tensor [2] [1, 2 :: int], Tensor [2, 2] [5, 6, 7, 8]]
     \<noteq> Inl (EinsumSubscriptCount 2 1 0) \<and>
   einsum ''iz,jk->ik'' [Tensor [2, 2, 2] [1, 2, 3, 4, 5, 6, 7, 8 :: int], Tensor [2, 2] [5, 6, 7, 8]]
     = Inl (EinsumSubscriptCount 2 3 0)"
  by (simp add: einsum_def einsum_plan_def lhs_of_def is_label_def label_of_def eval_list
        size_at_def maybe_wrap_dim_def rank_def label_groups_def num_labels_def)

section \<open>einsum: the implicit output\<close>



















section \<open>einsum: repeated labels\<close>

lemma align_ii:
  fixes A :: "'a::comm_semiring_1 tensor"
  assumes A: "sizes A = [n, n]"
  shows "align_labels 0 ''ii'' ((replicate total_labels (- 1))[8 := 0]) A [- 1]
           (replicate total_labels (- 1)) 0
         = Inr (tabulate [n] (\<lambda>idx. elem A [idx ! 0, idx ! 0]), [0], Suc 0)"
proof -
  have rep: "align_labels 0 ''i'' ((replicate total_labels (- 1))[8 := 0]) A [0]
               ((replicate total_labels (- 1))[8 := 0]) (Suc 0)
        = align_labels 0 [] ((replicate total_labels (- 1))[8 := 0])
            (tabulate (remove_nth 1 (sizes A)) (\<lambda>idx. elem A (insert_nth 1 (idx ! 0) idx)))
            [0] ((replicate total_labels (- 1))[8 := 0]) (Suc 0)"
    using A by (subst align_labels_repeated[where dim = 0]) (simp_all add: label_of_def eval_list rank_def)
  have d: "tabulate (remove_nth 1 (sizes A)) (\<lambda>idx. elem A (insert_nth 1 (idx ! 0) idx))
           = tabulate [n] (\<lambda>idx. elem A [idx ! 0, idx ! 0])"
    using A
    by (auto simp: remove_nth_def insert_nth_def valid_index_Cons valid_index_Nil intro!: tabulate_cong)
  show ?thesis
    using rep d by (simp add: label_of_def eval_list)
qed

lemma einsum_diagonal_tabulate:
  fixes A :: "'a::comm_semiring_1 tensor"
  assumes A: "sizes A = [n, n]"
  shows "einsum ''ii->i'' [A] = Inr (tabulate [n] (\<lambda>idx. elem A [idx ! 0, idx ! 0]))"
proof -
  let ?d = "tabulate [n] (\<lambda>idx. elem A [idx ! 0, idx ! 0])"
  obtain llo where pl: "einsum_plan ''ii->i'' [A] = Inr (Plan [''ii'']
      ((replicate total_labels 0)[8 := - 1]) llo ((replicate total_labels (- 1))[8 := 0]) [8] 1 1)"
    using A
    by (simp add: einsum_plan_def lhs_of_def is_label_def label_of_def size_at_simp
        rank_def implicit_output_step_def contraction_step_def eval_list)
  have "permute ?d (map int [0]) = Inr (tabulate [n] (\<lambda>idx. elem ?d (permute_index [0] idx)))"
    by (subst permute_nat) (simp_all add: rank_def)
  also have "\<dots> = Inr ?d"
    by (auto simp: valid_index_Cons valid_index_Nil permute_index_def index_of_def elem_tabulate
          intro!: tabulate_cong)
  finally have p: "permute ?d [0] = Inr ?d" by simp
  have al: "align_operand (Plan [''ii''] ((replicate total_labels 0)[8 := - 1]) llo
              ((replicate total_labels (- 1))[8 := 0]) [8] 1 1) 0 ''ii'' A = Inr ?d"
    using align_ii[OF A] p
    by (simp add: align_operand_def)
  show ?thesis
    using pl al by (simp add: einsum_def einsum_compute_def)
qed


lemma einsum_trace_tabulate:
  fixes A :: "'a::comm_semiring_1 tensor"
  assumes A: "sizes A = [n, n]"
  shows "einsum ''ii->'' [A] = Inr (tabulate [] (\<lambda>idx. \<Sum>k<n. elem A [k, k]))"
proof -
  let ?d = "tabulate [n] (\<lambda>idx. elem A [idx ! 0, idx ! 0])"
  obtain llo where pl: "einsum_plan ''ii->'' [A] = Inr (Plan [''ii'']
      ((replicate total_labels 0)[8 := 2]) llo ((replicate total_labels (- 1))[8 := 0]) [8] 0 1)"
    using A
    by (simp add: einsum_plan_def lhs_of_def is_label_def label_of_def size_at_simp
        rank_def implicit_output_step_def contraction_step_def eval_list)
  have "permute ?d (map int [0]) = Inr (tabulate [n] (\<lambda>idx. elem ?d (permute_index [0] idx)))"
    by (subst permute_nat) (simp_all add: rank_def)
  also have "\<dots> = Inr ?d"
    by (auto simp: valid_index_Cons valid_index_Nil permute_index_def index_of_def elem_tabulate
          intro!: tabulate_cong)
  finally have p: "permute ?d [0] = Inr ?d" by simp
  have al: "align_operand (Plan [''ii''] ((replicate total_labels 0)[8 := 2]) llo
              ((replicate total_labels (- 1))[8 := 0]) [8] 0 1) 0 ''ii'' A = Inr ?d"
    using align_ii[OF A] p
    by (simp add: align_operand_def)
  let ?r = "sum_keep ?d 0"
  let ?res = "tabulate [] (\<lambda>idx. \<Sum>k<n. elem A [k, k])"
  have s1: "sum_dimlist ?d [0] False = Inr (Tensor [] (data ?r))"
    by (simp add: sum_dimlist_def dim_list_to_bitset_def maybe_wrap_dim_def rank_def drop_axes_def
          Let_def sum_keep_def)
  have s2: "Tensor [] (data ?r) = ?res"
  proof (rule tensor_eqI)
    show "wf (Tensor [] (data ?r))"
      by (simp add: wf_def sum_keep_def tabulate_def length_all_indices)
    show "wf ?res" by simp
    show "sizes (Tensor [] (data ?r)) = sizes ?res" by simp
    fix idx assume "valid_index (sizes (Tensor [] (data ?r))) idx"
    then have idx: "idx = []"
      by (simp add: valid_index_Nil)
    have "elem (Tensor [] (data ?r)) [] = elem ?r [0]"
      by (simp add: elem_def sum_keep_def)
    also have "\<dots> = sum_list (map (\<lambda>c. elem ?d [c]) [0..<n])"
      by (simp add: sum_keep_def elem_tabulate valid_index_Cons valid_index_Nil)
    also have "\<dots> = (\<Sum>k<n. elem ?d [k])"
      by (rule sum_list_upt_sum)
    also have "\<dots> = (\<Sum>k<n. elem A [k, k])"
      by (intro sum.cong) (simp_all add: elem_tabulate valid_index_Cons valid_index_Nil)
    also have "\<dots> = elem ?res []"
      by (simp add: elem_tabulate valid_index_Nil)
    finally show "elem (Tensor [] (data ?r)) idx = elem ?res idx"
      by (simp add: idx)
  qed
  show ?thesis
    using pl al s1 s2 by (simp add: einsum_def einsum_compute_def)
qed

lemma permute_identity2:
  assumes "sizes t = [a, b]" "wf t"
  shows "permute t [0, 1] = Inr t"
proof -
  have "permute t (map int [0, 1]) = Inr (tabulate (map (\<lambda>d. sizes t ! d) [0, 1]) (\<lambda>idx. elem t (permute_index [0, 1] idx)))"
    using assms by (intro permute_nat) (simp_all add: rank_def)
  also have "tabulate (map (\<lambda>d. sizes t ! d) [0, 1]) (\<lambda>idx. elem t (permute_index [0, 1] idx))
             = tabulate (sizes t) (elem t)"
    using assms
    by (auto simp: valid_index_Cons valid_index_Nil permute_index_def intro!: tabulate_cong)
  finally show ?thesis
    using tabulate_elem[OF assms(2)] by simp
qed

lemma einsum_jii_tabulate:
  fixes A :: "'a::comm_semiring_1 tensor"
  assumes A: "sizes A = [m, n, n]" and w: "wf A"
  shows "einsum ''jii->ji'' [A] = Inr (tabulate [m, n] (\<lambda>idx. elem A [idx ! 0, idx ! 1, idx ! 1]))"
proof -
  let ?loi = "(replicate total_labels (- 1))[9 := 0, 8 := 1]"
  let ?d = "tabulate [m, n] (\<lambda>idx. elem A [idx ! 0, idx ! 1, idx ! 1])"
  obtain llo where pl: "einsum_plan ''jii->ji'' [A] = Inr (Plan [''jii'']
      ((replicate total_labels 0)[9 := - 1, 8 := - 1]) llo ?loi [9, 8] 2 2)"
    using A
    by (simp add: einsum_plan_def lhs_of_def is_label_def label_of_def size_at_simp
        rank_def implicit_output_step_def contraction_step_def eval_list)
  have lo: "labels_of ''jii'' = [9, 8, 8]"
    by (simp add: labels_of_def label_of_def)
  have fs: "firsts [9, 8, 8 :: nat] = [9, 8]"
    by (simp add: firsts_def)
  have al: "align_labels 0 ''jii'' ?loi A [- 1, - 1] (replicate total_labels (- 1)) 0
          = Inr (label_diagonal A (labels_of ''jii''), scan_perm ?loi (firsts (labels_of ''jii'')) [- 1, - 1],
                 length (firsts (labels_of ''jii'')))"
    using A w by (intro align_labels_diagonal) (auto simp: lo rank_def label_of_def total_labels_def less_Suc_eq numeral_3_eq_3)
  have ld: "label_diagonal A [9, 8, 8] = ?d"
    using A by (simp add: label_diagonal_def fs)
  have sp: "scan_perm ?loi [9, 8] [- 1, - 1] = [0, 1]"
    by (simp add: scan_perm_def eval_list numeral_2_eq_2)
  have p: "permute ?d [0, 1] = Inr ?d"
    by (rule permute_identity2) simp_all
  have "align_operand (Plan [''jii''] ((replicate total_labels 0)[9 := - 1, 8 := - 1]) llo ?loi [9, 8] 2 2)
          0 ''jii'' A = Inr ?d"
    using al p by (simp add: align_operand_def lo fs ld sp numeral_2_eq_2)
  then show ?thesis
    using pl by (simp add: einsum_def einsum_compute_def)
qed



text \<open>
  C4. For a square matrix \<open>A\<close>, \<open>einsum "ii->i" [A]\<close> is the diagonal of \<open>A\<close> and
  \<open>einsum "ii->" [A]\<close> is its trace; for \<open>B\<close> of shape \<open>[m, n, n]\<close>,
  \<open>einsum "jii->ji" [B]\<close> has the entries \<open>B[j, i, i]\<close>. In general, the scan of an
  operand's labels, started as \<open>einsum\<close> starts it (\<open>align_labels\<close> with no label seen),
  on labels \<open>a..z\<close> that are as many as the operand has axes and whose repetitions meet
  axes of equal extents, returns the operand with one axis for every distinct label, in
  the order of the first occurrences, the entry at an index being the entry of the
  operand where every axis is indexed by the component of its label. When one label
  stands at two axes \<open>p < q\<close> and no other label is repeated, axis \<open>q\<close> is gone and the
  entry at an index is the entry of the operand with the \<open>p\<close> component put at axis \<open>q\<close>
  as well: one axis in place of two, at the place of the first occurrence.
\<close>

theorem einsum_repeated_label:
  fixes A B operand :: "'a::comm_semiring_1 tensor"
  shows "(sizes A = [n, n] \<longrightarrow>
            (\<exists>r. einsum ''ii->i'' [A] = Inr r \<and> sizes r = [n] \<and> wf r \<and>
                 (\<forall>k<n. elem r [k] = elem A [k, k])) \<and>
            (\<exists>r. einsum ''ii->'' [A] = Inr r \<and> sizes r = [] \<and> wf r \<and>
                 elem r [] = (\<Sum>k<n. elem A [k, k]))) \<and>
         (sizes B = [m, n, n] \<and> wf B \<longrightarrow>
            (\<exists>r. einsum ''jii->ji'' [B] = Inr r \<and> sizes r = [m, n] \<and> wf r \<and>
                 (\<forall>j<m. \<forall>k<n. elem r [j, k] = elem B [j, k, k]))) \<and>
         (wf operand \<and> (\<forall>c\<in>set cs. c = CHR '' '' \<or> is_label c) \<and>
          length (labels_of cs) = rank operand \<and>
          (\<forall>p<rank operand.
              sizes operand ! p = sizes operand ! index_of (labels_of cs) (labels_of cs ! p)) \<longrightarrow>
            (\<exists>t ps. align_labels i cs loi operand ps0 (replicate total_labels (- 1)) 0
                     = Inr (t, ps, length (firsts (labels_of cs))) \<and>
                 sizes t = map (\<lambda>l. sizes operand ! index_of (labels_of cs) l) (firsts (labels_of cs)) \<and>
                 wf t \<and>
                 (\<forall>idx. valid_index (sizes t) idx \<longrightarrow>
                    elem t idx
                      = elem operand (map (\<lambda>l. idx ! index_of (firsts (labels_of cs)) l) (labels_of cs))) \<and>
                 (\<forall>p q. p < q \<and> q < rank operand \<and> labels_of cs ! q = labels_of cs ! p \<and>
                        distinct (remove_nth q (labels_of cs)) \<longrightarrow>
                    sizes t = remove_nth q (sizes operand) \<and>
                    (\<forall>idx. valid_index (sizes t) idx \<longrightarrow>
                       elem t idx = elem operand (insert_nth q (idx ! p) idx)))))"
proof (intro conjI impI)
  assume A: "sizes A = [n, n]"
  show "\<exists>r. einsum ''ii->i'' [A] = Inr r \<and> sizes r = [n] \<and> wf r \<and>
                 (\<forall>k<n. elem r [k] = elem A [k, k])"
    using einsum_diagonal_tabulate[OF A]
    by (simp add: elem_tabulate valid_index_Cons valid_index_Nil)
  show "\<exists>r. einsum ''ii->'' [A] = Inr r \<and> sizes r = [] \<and> wf r \<and>
                 elem r [] = (\<Sum>k<n. elem A [k, k])"
    using einsum_trace_tabulate[OF A]
    by (simp add: elem_tabulate valid_index_Nil)
next
  assume B: "sizes B = [m, n, n] \<and> wf B"
  show "\<exists>r. einsum ''jii->ji'' [B] = Inr r \<and> sizes r = [m, n] \<and> wf r \<and>
                 (\<forall>j<m. \<forall>k<n. elem r [j, k] = elem B [j, k, k])"
    using einsum_jii_tabulate[of B m n] B
    by (simp add: elem_tabulate valid_index_Cons valid_index_Nil)
next
  let ?ls = "labels_of cs"
  assume a: "wf operand \<and> (\<forall>c\<in>set cs. c = CHR '' '' \<or> is_label c) \<and>
          length ?ls = rank operand \<and>
          (\<forall>p<rank operand. sizes operand ! p = sizes operand ! index_of ?ls (?ls ! p))"
  let ?t = "label_diagonal operand ?ls"
  have lb: "\<forall>c\<in>set cs. c \<noteq> CHR '' '' \<longrightarrow> label_of c < total_labels"
    using a is_label_bound by blast
  have al: "align_labels i cs loi operand ps0 (replicate total_labels (- 1)) 0
         = Inr (?t, scan_perm loi (firsts ?ls) ps0, length (firsts ?ls))"
    using a lb by (intro align_labels_diagonal) simp_all
  have sz: "sizes ?t = map (\<lambda>l. sizes operand ! index_of ?ls l) (firsts ?ls)"
    by (simp add: label_diagonal_def)
  have el: "\<forall>idx. valid_index (sizes ?t) idx \<longrightarrow>
              elem ?t idx = elem operand (map (\<lambda>l. idx ! index_of (firsts ?ls) l) ?ls)"
    by (simp add: label_diagonal_def elem_tabulate)
  have pair: "\<forall>p q. p < q \<and> q < rank operand \<and> ?ls ! q = ?ls ! p \<and> distinct (remove_nth q ?ls) \<longrightarrow>
                sizes ?t = remove_nth q (sizes operand) \<and>
                (\<forall>idx. valid_index (sizes ?t) idx \<longrightarrow>
                   elem ?t idx = elem operand (insert_nth q (idx ! p) idx))"
  proof (intro allI impI)
    fix p q
    assume pq: "p < q \<and> q < rank operand \<and> ?ls ! q = ?ls ! p \<and> distinct (remove_nth q ?ls)"
    have "?t = tabulate (remove_nth q (sizes operand)) (\<lambda>idx. elem operand (insert_nth q (idx ! p) idx))"
      using pq a by (intro label_diagonal_one_pair) simp_all
    then show "sizes ?t = remove_nth q (sizes operand) \<and>
                (\<forall>idx. valid_index (sizes ?t) idx \<longrightarrow>
                   elem ?t idx = elem operand (insert_nth q (idx ! p) idx))"
      by (simp add: elem_tabulate)
  qed
  show "\<exists>t ps. align_labels i cs loi operand ps0 (replicate total_labels (- 1)) 0
                     = Inr (t, ps, length (firsts ?ls)) \<and>
                 sizes t = map (\<lambda>l. sizes operand ! index_of ?ls l) (firsts ?ls) \<and>
                 wf t \<and>
                 (\<forall>idx. valid_index (sizes t) idx \<longrightarrow>
                    elem t idx = elem operand (map (\<lambda>l. idx ! index_of (firsts ?ls) l) ?ls)) \<and>
                 (\<forall>p q. p < q \<and> q < rank operand \<and> ?ls ! q = ?ls ! p \<and>
                        distinct (remove_nth q ?ls) \<longrightarrow>
                    sizes t = remove_nth q (sizes operand) \<and>
                    (\<forall>idx. valid_index (sizes t) idx \<longrightarrow>
                       elem t idx = elem operand (insert_nth q (idx ! p) idx)))"
    using al sz el pair wf_label_diagonal[of operand ?ls] by blast
qed

theorem einsum_repeated_label_witness:
  "(\<exists>r. einsum ''ii->i'' [Tensor [2, 2] [1, 2, 3, 4 :: int]] = Inr r \<and> sizes r = [2] \<and>
        elem r [0] = 1 \<and> elem r [1] = 4) \<and>
   (\<exists>r. einsum ''ii->'' [Tensor [2, 2] [1, 2, 3, 4 :: int]] = Inr r \<and> sizes r = [] \<and>
        elem r [] = 5) \<and>
   (\<exists>r. einsum ''jii->ji'' [Tensor [2, 2, 2] [1, 2, 3, 4, 5, 6, 7, 8 :: int]] = Inr r \<and>
        sizes r = [2, 2] \<and> elem r [0, 0] = 1 \<and> elem r [0, 1] = 4 \<and> elem r [1, 0] = 5 \<and>
        elem r [1, 1] = 8) \<and>
   (\<exists>t ps. align_labels 0 ''jii'' (replicate total_labels (- 1))
          (Tensor [2, 2, 2] [1, 2, 3, 4, 5, 6, 7, 8 :: int]) [- 1, - 1] (replicate total_labels (- 1)) 0
          = Inr (t, ps, 2) \<and>
        sizes t = [2, 2] \<and> elem t [0, 0] = 1 \<and> elem t [0, 1] = 4 \<and> elem t [1, 0] = 5 \<and>
        elem t [1, 1] = 8)"
proof -
  let ?A = "Tensor [2, 2] [1, 2, 3, 4 :: int]"
  let ?B = "Tensor [2, 2, 2] [1, 2, 3, 4, 5, 6, 7, 8 :: int]"
  let ?ls = "labels_of ''jii''"
  note th = einsum_repeated_label[of ?A 2 ?B 2 ?B "''jii''" 0 "replicate total_labels (- 1)" "[- 1, - 1]"]
  have lo: "?ls = [9, 8, 8]"
    by (simp add: labels_of_def label_of_def)
  have fs: "firsts [9, 8, 8 :: nat] = [9, 8]"
    by (simp add: firsts_def)
  have h1: "sizes ?A = [2, 2]"
    by simp
  have h2: "sizes ?B = [2, 2, 2] \<and> wf ?B"
    by (simp add: wf_def)
  have h3: "wf ?B \<and> (\<forall>c\<in>set ''jii''. c = CHR '' '' \<or> is_label c) \<and>
          length ?ls = rank ?B \<and>
          (\<forall>p<rank ?B. sizes ?B ! p = sizes ?B ! index_of ?ls (?ls ! p))"
    by (simp add: wf_def is_label_def lo rank_def less_Suc_eq numeral_3_eq_3)
  note c1 = th[THEN conjunct1, THEN mp, OF h1]
  note c2 = th[THEN conjunct2, THEN conjunct1, THEN mp, OF h2]
  note c3 = th[THEN conjunct2, THEN conjunct2, THEN mp, OF h3]
  from c1[THEN conjunct1] obtain r1 where r1: "einsum ''ii->i'' [?A] = Inr r1" "sizes r1 = [2]"
      "\<forall>k<2. elem r1 [k] = elem ?A [k, k]"
    by (elim exE conjE)
  from c1[THEN conjunct2] obtain r2 where r2: "einsum ''ii->'' [?A] = Inr r2" "sizes r2 = []"
      "elem r2 [] = (\<Sum>k<2. elem ?A [k, k])"
    by (elim exE conjE)
  from c2 obtain r3 where r3: "einsum ''jii->ji'' [?B] = Inr r3" "sizes r3 = [2, 2]"
      "\<forall>j<2. \<forall>k<2. elem r3 [j, k] = elem ?B [j, k, k]"
    by (elim exE conjE)
  from c3 obtain t ps where t:
      "align_labels 0 ''jii'' (replicate total_labels (- 1)) ?B [- 1, - 1] (replicate total_labels (- 1)) 0
         = Inr (t, ps, length (firsts ?ls))"
      "sizes t = map (\<lambda>l. sizes ?B ! index_of ?ls l) (firsts ?ls)"
      "\<forall>idx. valid_index (sizes t) idx \<longrightarrow>
          elem t idx = elem ?B (map (\<lambda>l. idx ! index_of (firsts ?ls) l) ?ls)"
    by (elim exE conjE)
  have e1: "elem r1 [0] = 1 \<and> elem r1 [1] = 4"
    using r1(3) by (simp add: elem_def)
  have e2: "elem r2 [] = 5"
    using r2(3) by (simp add: elem_def lessThan_Suc numeral_2_eq_2)
  have e3: "elem r3 [0, 0] = 1 \<and> elem r3 [0, 1] = 4 \<and> elem r3 [1, 0] = 5 \<and> elem r3 [1, 1] = 8"
    using r3(3) by (simp add: elem_def)
  have st: "sizes t = [2, 2]"
    using t(2) by (simp add: lo fs)
  have lf: "length (firsts ?ls) = 2"
    by (simp add: lo fs)
  have "elem t [0, 0] = elem ?B (map (\<lambda>l. [0, 0] ! index_of (firsts ?ls) l) ?ls)"
       "elem t [0, 1] = elem ?B (map (\<lambda>l. [0, 1] ! index_of (firsts ?ls) l) ?ls)"
       "elem t [1, 0] = elem ?B (map (\<lambda>l. [1, 0] ! index_of (firsts ?ls) l) ?ls)"
       "elem t [1, 1] = elem ?B (map (\<lambda>l. [1, 1] ! index_of (firsts ?ls) l) ?ls)"
    using t(3) st by (simp_all add: valid_index_Cons valid_index_Nil)
  then have e4: "elem t [0, 0] = 1 \<and> elem t [0, 1] = 4 \<and> elem t [1, 0] = 5 \<and> elem t [1, 1] = 8"
    by (simp add: lo fs elem_def)
  have t1: "align_labels 0 ''jii'' (replicate total_labels (- 1)) ?B [- 1, - 1] (replicate total_labels (- 1)) 0
         = Inr (t, ps, 2)"
    using t(1) lf by simp
  have g1: "\<exists>r. einsum ''ii->i'' [?A] = Inr r \<and> sizes r = [2] \<and> elem r [0] = 1 \<and> elem r [1] = 4"
    using r1(1,2) e1 by blast
  have g2: "\<exists>r. einsum ''ii->'' [?A] = Inr r \<and> sizes r = [] \<and> elem r [] = 5"
    using r2(1,2) e2 by blast
  have g3: "\<exists>r. einsum ''jii->ji'' [?B] = Inr r \<and> sizes r = [2, 2] \<and> elem r [0, 0] = 1 \<and>
        elem r [0, 1] = 4 \<and> elem r [1, 0] = 5 \<and> elem r [1, 1] = 8"
    using r3(1,2) e3 by blast
  have g4: "\<exists>t ps. align_labels 0 ''jii'' (replicate total_labels (- 1)) ?B [- 1, - 1]
          (replicate total_labels (- 1)) 0 = Inr (t, ps, 2) \<and>
        sizes t = [2, 2] \<and> elem t [0, 0] = 1 \<and> elem t [0, 1] = 4 \<and> elem t [1, 0] = 5 \<and>
        elem t [1, 1] = 8"
    using t1 st e4 by blast
  show ?thesis
    using g1 g2 g3 g4 by (intro conjI)
qed

section \<open>sumproduct_pair: the contract\<close>

lemma sumproduct_ref_shape:
  fixes l r :: "'a::comm_semiring_1 tensor"
  assumes cp: "compatible (sizes l) (sizes r)"
  shows "\<exists>t. sumproduct_ref l r sd keepdim = Inr t \<and>
           sizes t = (if keepdim
                      then map (\<lambda>a. if a \<in> set sd then 1 else broadcast_sizes (sizes l) (sizes r) ! a) [0..<rank l]
                      else map ((!) (broadcast_sizes (sizes l) (sizes r))) (filter (\<lambda>a. a \<notin> set sd) [0..<rank l]))"
proof -
  let ?bs = "broadcast_sizes (sizes l) (sizes r)"
  let ?P = "tabulate ?bs (\<lambda>idx. bget l idx * bget r idx)"
  let ?Q = "fold (\<lambda>k acc. sum_keep acc k) sd ?P"
  let ?f = "\<lambda>a. if a \<in> set sd then 1 else ?bs ! a"
  have rP: "rank ?P = rank l"
    using compatible_length[OF cp] by (simp add: rank_def)
  have szQ: "sizes ?Q = map ?f [0..<rank l]"
    unfolding sizes_fold_sum_keep_eq rP by simp
  have "drop_axes (map (\<lambda>k. k \<in> set sd) [0..<rank l]) (map ?f [0..<rank l])
          = map ?f (filter (\<lambda>a. a \<notin> set sd) [0..<rank l])"
    by (rule drop_axes_map)
  also have "\<dots> = map ((!) ?bs) (filter (\<lambda>a. a \<notin> set sd) [0..<rank l])"
    by (rule map_cong) simp_all
  finally have dr: "drop_axes (map (\<lambda>k. k \<in> set sd) [0..<rank l]) (sizes ?Q)
          = map ((!) ?bs) (filter (\<lambda>a. a \<notin> set sd) [0..<rank l])"
    by (simp only: szQ)
  show ?thesis
    using mul_bget[OF cp] rP szQ dr
    by (simp add: sumproduct_ref_def reduce_sum_ref_def Let_def)
qed

text \<open>
  Where no extent is 0, \<open>sumproduct_pair\<close> keeps its contract. Two operands of equal
  rank whose extents are, at every axis, equal or 1 on one side, and none of them 0; a
  list of distinct axes of the operands. Then \<open>sumproduct_pair\<close> returns what the
  reference returns: the broadcast elementwise product, reduce-summed over the listed
  axes. The result has the broadcast shape with every summed axis of extent 1 when
  \<open>keepdim\<close> holds, and without the summed axes otherwise.
\<close>

lemma sumproduct_pair_contract:
  fixes left_in right_in :: "'a::comm_semiring_1 tensor"
  assumes "compatible (sizes left_in) (sizes right_in)"
    and "positive (sizes left_in)" and "positive (sizes right_in)"
    and "distinct sum_dims" and "\<forall>a\<in>set sum_dims. a < rank left_in"
  shows "sumproduct_pair left_in right_in (map int sum_dims) keepdim
           = sumproduct_ref left_in right_in sum_dims keepdim \<and>
         (\<exists>t. sumproduct_pair left_in right_in (map int sum_dims) keepdim = Inr t \<and>
           sizes t = (if keepdim
                      then map (\<lambda>a. if a \<in> set sum_dims then 1
                                      else broadcast_sizes (sizes left_in) (sizes right_in) ! a)
                             [0..<rank left_in]
                      else map ((!) (broadcast_sizes (sizes left_in) (sizes right_in)))
                             (filter (\<lambda>a. a \<notin> set sum_dims) [0..<rank left_in])))"
  using sumproduct_pair_reduce_sum[OF assms, of keepdim]
    sumproduct_ref_shape[OF assms(1), of sum_dims keepdim]
  by simp

lemma sumproduct_pair_contract_example:
  "compatible [2, 3] [2, 1] \<and> positive [2, 3] \<and> positive [2, 1] \<and>
   sumproduct_pair (Tensor [2, 3] [1, 2, 3, 4, 5, 6 :: int]) (Tensor [2, 1] [10, 100]) [0] False
     = Inr (Tensor [3] [410, 520, 630])"
proof -
  have "sumproduct_ref (Tensor [2, 3] [1, 2, 3, 4, 5, 6 :: int]) (Tensor [2, 1] [10, 100]) [0] False
          = Inr (Tensor [3] [410, 520, 630])"
    by code_simp
  moreover have "compatible [2, 3] [2, 1]" "positive [2, 3]" "positive [2, 1]"
    by (simp_all add: compatible_def positive_def)
  ultimately show ?thesis
    using sumproduct_pair_contract[of "Tensor [2, 3] [1, 2, 3, 4, 5, 6 :: int]" "Tensor [2, 1] [10, 100]"
             "[0]" False]
    by (simp add: rank_def)
qed

text \<open>
  C2. The claim, and the comment at line 36, ask for the product-then-sum on every
  pair of compatible operands. For \<open>left\<close> of shape \<open>[0]\<close>, \<open>right\<close> of shape \<open>[1]\<close>
  and \<open>sum_dims = [0]\<close> the extents are compatible and the broadcast product summed
  over axis 0 is the scalar 0 (with \<open>keepdim\<close>, the array \<open>[0]\<close> of shape \<open>[1]\<close>), but
  \<open>sumproduct_pair\<close> fails: \<^verbatim>\<open>left.size(i)>1\<close> classes the extent 0 with the extent 1,
  and the empty operand is reshaped to \<open>[1, 1, 1]\<close>.
\<close>

theorem sumproduct_pair_zero_extent:
  "compatible (sizes (Tensor [0] ([] :: int list))) (sizes (Tensor [1] [1 :: int])) \<and>
   sumproduct_ref (Tensor [0] []) (Tensor [1] [1 :: int]) [0] False = Inr (Tensor [] [0]) \<and>
   sumproduct_pair (Tensor [0] []) (Tensor [1] [1 :: int]) [0] False = Inl ShapeInvalid \<and>
   sumproduct_ref (Tensor [0] []) (Tensor [1] [1 :: int]) [0] True = Inr (Tensor [1] [0]) \<and>
   sumproduct_pair (Tensor [0] []) (Tensor [1] [1 :: int]) [0] True = Inl ShapeInvalid"
  by code_simp

section \<open>tensordot and the contraction of an axis of extent 1\<close>

lemma int32_of_wrap: "int32_of 4294967296 = 0"
  by (simp add: int32_of_def)

text \<open>
  C5. The claim gives, for two vectors of the same length, the sum of the products of
  their entries. \<^verbatim>\<open>int s1 = input1.size(dims1[i])\<close> keeps the low 32 bits of an extent:
  for two vectors of \<open>2^32\<close> entries both extents are read as 0, the contracted size is
  0, and the reshape of the first operand to \<open>[1, 0]\<close> fails. No result is produced.
\<close>

theorem tensordot_narrowed_extent:
  "wf (Tensor [4294967296] (replicate 4294967296 (1 :: int))) \<and>
   int32_of 4294967296 = 0 \<and>
   tensordot (Tensor [4294967296] (replicate 4294967296 (1 :: int)))
             (Tensor [4294967296] (replicate 4294967296 1)) [0] [0] = Inl ShapeInvalid"
proof -
  let ?A = "Tensor [4294967296] (replicate 4294967296 (1 :: int))"
  have w: "wf ?A"
    by (simp add: wf_def)
  have sz: "size_at ?A 0 = Inr 4294967296"
    by (simp add: size_at_def maybe_wrap_dim_def rank_def)
  obtain f where pm: "permute ?A [0] = Inr (tabulate [4294967296] f)"
    by (simp add: permute_def maybe_wrap_dim_def rank_def)
  have rs: "reshape (tabulate [4294967296] f) [1, 0] = Inl ShapeInvalid"
    by (simp add: reshape_def infer_size_def numel_def)
  have "tensordot ?A ?A [0] [0] = Inl ShapeInvalid"
    by (simp add: tensordot_def sz int32_of_wrap Let_def dim_list_to_bitset_def maybe_wrap_dim_def
          pm rs rank_def)
  then show ?thesis
    using w int32_of_wrap by simp
qed

text \<open>
  C6. The claim gives, for a contracted axis at which one side has extent 1, the product
  of that side with the sum of the other side along the axis. At an axis where the other
  side has extent 0 that sum is 0: for \<open>left\<close> of shape \<open>[2, 0]\<close> and \<open>right\<close> of shape
  \<open>[2, 1]\<close>, contracted at axis 1, it is the vector \<open>[0, 0]\<close> (shape \<open>[2, 1]\<close> when the
  axis is kept). \<open>sumproduct_pair\<close> fails on this input, for both values of \<open>keepdim\<close>;
  with extent 3 in place of 0 it returns what the claim gives, and \<open>tensordot\<close> returns
  the zeros on the extent-0 input.
\<close>

theorem sumproduct_pair_presum_zero_extent:
  "sizes (Tensor [2, 1] [3, 4 :: int]) ! 1 = 1 \<and>
   presum_ref (Tensor [2, 0] []) (Tensor [2, 1] [3, 4 :: int]) 1 False = Inr (Tensor [2] [0, 0]) \<and>
   sumproduct_pair (Tensor [2, 0] []) (Tensor [2, 1] [3, 4 :: int]) [1] False = Inl ShapeInvalid \<and>
   presum_ref (Tensor [2, 0] []) (Tensor [2, 1] [3, 4 :: int]) 1 True = Inr (Tensor [2, 1] [0, 0]) \<and>
   sumproduct_pair (Tensor [2, 0] []) (Tensor [2, 1] [3, 4 :: int]) [1] True = Inl ShapeInvalid \<and>
   presum_ref (Tensor [2, 3] [1, 2, 3, 4, 5, 6]) (Tensor [2, 1] [3, 4 :: int]) 1 False
     = Inr (Tensor [2] [18, 60]) \<and>
   sumproduct_pair (Tensor [2, 3] [1, 2, 3, 4, 5, 6]) (Tensor [2, 1] [3, 4 :: int]) [1] False
     = Inr (Tensor [2] [18, 60]) \<and>
   tensordot (Tensor [2, 0] []) (Tensor [1, 2] [3, 4 :: int]) [1] [0] = Inr (Tensor [2, 2] [0, 0, 0, 0])"
  by code_simp

section \<open>bilinear\<close>

text \<open>
  C7. The claim gives, for inputs of shape \<open>[N, I]\<close> and \<open>[N, J]\<close>, the \<open>N\<close> by \<open>O\<close> array
  with the entry \<open>bias[o] + \<Sum>i j. x1[n,i] * weight[o,i,j] * x2[n,j]\<close> at \<open>(n, o)\<close>. For
  an empty batch, \<open>N = 0\<close>, this is the array of shape \<open>[0, O]\<close> without entries;
  \<open>bilinear\<close> fails on it. On a batch of two it returns what the claim gives.
\<close>

theorem bilinear_empty_batch:
  "bilinear_ref (Tensor [0, 1] []) (Tensor [0, 1] []) (Tensor [1, 1, 1] [1 :: int]) None
     = Tensor [0, 1] [] \<and>
   bilinear (Tensor [0, 1] []) (Tensor [0, 1] []) (Tensor [1, 1, 1] [1 :: int]) None
     = Inl ShapeInvalid \<and>
   bilinear_ref (Tensor [2, 2] [1, 2, 3, 4]) (Tensor [2, 3] [1, 2, 3, 4, 5, 6])
       (Tensor [2, 2, 3] [1, 2, 3, 4, 5, 6, 7, 8, 9, 10, 11, 12 :: int]) (Some (Tensor [2] [100, 200]))
     = Tensor [2, 2] [178, 386, 504, 1234] \<and>
   bilinear (Tensor [2, 2] [1, 2, 3, 4]) (Tensor [2, 3] [1, 2, 3, 4, 5, 6])
       (Tensor [2, 2, 3] [1, 2, 3, 4, 5, 6, 7, 8, 9, 10, 11, 12 :: int]) (Some (Tensor [2] [100, 200]))
     = Inr (Tensor [2, 2] [178, 386, 504, 1234])"
  by code_simp

section \<open>The trilinear combinator\<close>

text \<open>
  C8. The claim gives the product of the three operands, with their axes of extent 1
  inserted, summed over the sum axes, whatever the unroll axis. For three vectors of
  length 2, each with axis 1 inserted, and axis 1 summed, this is the vector of the
  products of the entries: \<open>_trilinear\<close> returns it with the unroll axis 0, and returns
  zeros with the unroll axis 1. For three operands of shape \<open>[2, 0, 2]\<close>, nothing
  inserted, and axis 2 summed, the claim gives the array of shape \<open>[2, 0]\<close> without
  entries: \<open>_trilinear\<close> returns it with the unroll axis 1 and fails with the unroll
  axis 0.
\<close>

theorem trilinear_unroll_axis:
  "trilinear_ref (Tensor [2] [1, 2]) (Tensor [2] [3, 4]) (Tensor [2] [5, 6 :: int]) [1] [1] [1] [1]
     = Inr (Tensor [2] [15, 48]) \<and>
   trilinear (Tensor [2] [1, 2]) (Tensor [2] [3, 4]) (Tensor [2] [5, 6 :: int]) [1] [1] [1] [1] 0
     = Inr (Tensor [2] [15, 48]) \<and>
   trilinear (Tensor [2] [1, 2]) (Tensor [2] [3, 4]) (Tensor [2] [5, 6 :: int]) [1] [1] [1] [1] 1
     = Inr (Tensor [2] [0, 0]) \<and>
   trilinear_ref (Tensor [2, 0, 2] []) (Tensor [2, 0, 2] []) (Tensor [2, 0, 2] ([] :: int list)) [] [] [] [2]
     = Inr (Tensor [2, 0] []) \<and>
   trilinear (Tensor [2, 0, 2] []) (Tensor [2, 0, 2] []) (Tensor [2, 0, 2] ([] :: int list)) [] [] [] [2] 0
     = Inl ShapeInvalid \<and>
   trilinear (Tensor [2, 0, 2] []) (Tensor [2, 0, 2] []) (Tensor [2, 0, 2] ([] :: int list)) [] [] [] [2] 1
     = Inr (Tensor [2, 0] [])"
  by code_simp

end
